theory Spec2Isabelle
  imports Complex_Main "HOL-Library.Multiset"
begin

section \<open>Data model of scripts/meta\_analysis.py\<close>

text \<open>
  Python exceptions are values: every function of the source that can raise returns
  \<open>error + 'a\<close>, with \<open>Inl\<close> the exception.
\<close>

datatype error = KeyError | TypeError | ZeroDivisionError | ValueError | IndexError

text \<open>
  Class \<open>MetaDat\<close>. Python floats are modelled as reals: the matcher only negates and
  compares them with \<open>None\<close>; the combiners are read over the reals (no rounding, no
  overflow to infinity). \<open>None\<close> is \<open>None\<close> of an option type.
\<close>

record MetaDat =
  chr :: int
  pos :: int
  ref :: string
  alt :: string
  beta :: "real option"
  pval :: "real option"
  z_scr :: "real option"
  se :: "real option"
  extra_cols :: "string list"

text \<open>
  \<open>MetaDat.__init__\<close>, on arguments already converted (\<open>int(pos)\<close>, \<open>strip\<close>,
  \<open>float(se)\<close>): the cache \<open>z_scr\<close> starts as \<open>None\<close>.
\<close>

definition MetaDat_init ::
  "int \<Rightarrow> int \<Rightarrow> string \<Rightarrow> string \<Rightarrow> real option \<Rightarrow> real option \<Rightarrow> real option
    \<Rightarrow> string list \<Rightarrow> MetaDat" where
  "MetaDat_init c p r a b pv s ex =
     \<lparr>chr = c, pos = p, ref = r, alt = a, beta = b, pval = pv, z_scr = None, se = s,
      extra_cols = ex\<rparr>"

section \<open>Allele equalisation\<close>

text \<open>The dictionary \<open>flip = {"A":"T","C":"G","T":"A","G":"C"}\<close>.\<close>

definition flip :: "char \<Rightarrow> char option" where
  "flip a =
     (if a = CHR ''A'' then Some (CHR ''T'')
      else if a = CHR ''C'' then Some (CHR ''G'')
      else if a = CHR ''T'' then Some (CHR ''A'')
      else if a = CHR ''G'' then Some (CHR ''C'')
      else None)"

text \<open>
  \<open>flip_strand\<close>: \<open>"".join([flip[a] for a in allele])\<close>; a character that is not a key of
  \<open>flip\<close> raises \<open>KeyError\<close>.
\<close>

fun flip_strand :: "string \<Rightarrow> error + string" where
  "flip_strand [] = Inr []"
| "flip_strand (a # allele) =
     (case flip a of
        None \<Rightarrow> Inl KeyError
      | Some b \<Rightarrow> (case flip_strand allele of Inl e \<Rightarrow> Inl e | Inr bs \<Rightarrow> Inr (b # bs)))"

definition is_symmetric :: "string \<Rightarrow> string \<Rightarrow> bool" where
  "is_symmetric a1 a2 =
     ((a1 = ''A'' \<and> a2 = ''T'') \<or> (a1 = ''T'' \<and> a2 = ''A'')
      \<or> (a1 = ''C'' \<and> a2 = ''G'') \<or> (a1 = ''G'' \<and> a2 = ''C''))"

text \<open>
  The three assignments of the swapping branches of \<open>equalize\<close>:
  \<open>self.beta = -1 * self.beta if self.beta is not None else None\<close>, then \<open>ref\<close> and
  \<open>alt\<close> exchanged.
\<close>

definition swap_alleles :: "MetaDat \<Rightarrow> MetaDat" where
  "swap_alleles self =
     self\<lparr>beta := (case beta self of None \<Rightarrow> None | Some b \<Rightarrow> Some (- 1 * b)),
          alt := ref self, ref := alt self\<rparr>"

text \<open>
  \<open>MetaDat.equalize\<close>. The method returns \<open>True\<close>, \<open>False\<close> or, where no \<open>return\<close> is
  reached, \<open>None\<close>: the result is a \<open>bool option\<close>. It mutates \<open>self\<close>, so the model
  returns the record \<open>self\<close> has become; \<open>other\<close> is only read. Both strand flips of
  \<open>other\<close> are computed before any test, as in the source.
\<close>

definition equalize :: "MetaDat \<Rightarrow> MetaDat \<Rightarrow> error + (bool option \<times> MetaDat)" where
  "equalize self other =
     (if chr self = chr other \<and> pos self = pos other then
        (case flip_strand (ref other) of
           Inl e \<Rightarrow> Inl e
         | Inr flip_ref \<Rightarrow>
        (case flip_strand (alt other) of
           Inl e \<Rightarrow> Inl e
         | Inr flip_alt \<Rightarrow>
           if is_symmetric (ref other) (alt other) then
             (if ref self = ref other \<and> alt self = alt other then Inr (Some True, self)
              else if ref self = alt other \<and> alt self = ref other
                then Inr (Some True, swap_alleles self)
              else Inr (None, self))
           else if (ref self = ref other \<or> ref self = flip_ref)
                 \<and> (alt self = alt other \<or> alt self = flip_alt)
             then Inr (Some True, self)
           else if (ref self = alt other \<or> ref self = flip_alt)
                 \<and> (alt self = ref other \<or> alt self = flip_alt)
             then Inr (Some True, swap_alleles self)
           else Inr (Some False, self)))
      else Inr (None, self))"

text \<open>Python truthiness of the result, as tested by \<open>if v.equalize(dat)\<close>.\<close>

definition truthy :: "bool option \<Rightarrow> bool" where
  "truthy r = (r = Some True)"

section \<open>Study streams\<close>

text \<open>
  The dictionary \<open>chrord\<close>: \<open>chr1\<close> .. \<open>chr22\<close>, \<open>chrX\<close>, \<open>chrY\<close>, \<open>chrMT\<close>, and the
  bare numbers \<open>1\<close> .. \<open>22\<close>.
\<close>

definition chrord_table :: "(string \<times> int) list" where
  "chrord_table =
    [(''chr1'', 1), (''chr2'', 2), (''chr3'', 3), (''chr4'', 4), (''chr5'', 5),
     (''chr6'', 6), (''chr7'', 7), (''chr8'', 8), (''chr9'', 9), (''chr10'', 10),
     (''chr11'', 11), (''chr12'', 12), (''chr13'', 13), (''chr14'', 14), (''chr15'', 15),
     (''chr16'', 16), (''chr17'', 17), (''chr18'', 18), (''chr19'', 19), (''chr20'', 20),
     (''chr21'', 21), (''chr22'', 22), (''chrX'', 23), (''chrY'', 24), (''chrMT'', 25),
     (''1'', 1), (''2'', 2), (''3'', 3), (''4'', 4), (''5'', 5),
     (''6'', 6), (''7'', 7), (''8'', 8), (''9'', 9), (''10'', 10),
     (''11'', 11), (''12'', 12), (''13'', 13), (''14'', 14), (''15'', 15),
     (''16'', 16), (''17'', 17), (''18'', 18), (''19'', 19), (''20'', 20),
     (''21'', 21), (''22'', 22)]"

definition chrord :: "string \<Rightarrow> int option" where
  "chrord = map_of chrord_table"

text \<open>
  One line of the study's file after the steps the source applies to every line it
  keeps: split on tabs, the configured columns picked through \<open>h_idx\<close>, \<open>ref\<close> and
  \<open>alt\<close> through \<open>strip\<close>, \<open>pos\<close> through \<open>int\<close>, \<open>pval\<close> and the effect through \<open>float\<close> (both \<open>None\<close> when either fails),
  an odds ratio through \<open>math.log\<close>, \<open>se\<close> through \<open>float\<close> (\<open>None\<close> when it fails or
  when no column is configured). The contig stays the string of the file: the look-up
  in \<open>chrord\<close> is part of the reading loop. Lines that make one of these steps raise
  are outside the model.
\<close>

record row =
  row_chr :: string
  row_pos :: int
  row_ref :: string
  row_alt :: string
  row_eff :: "real option"
  row_pval :: "real option"
  row_se :: "real option"
  row_extra :: "string list"

text \<open>\<open>MetaDat(chr, pos, ref, alt, eff, pval, se, extracols)\<close> with \<open>chr = chrord[chr]\<close>.\<close>

definition make_dat :: "int \<Rightarrow> row \<Rightarrow> MetaDat" where
  "make_dat c l =
     MetaDat_init c (row_pos l) (row_ref l) (row_alt l) (row_eff l) (row_pval l) (row_se l)
       (row_extra l)"

text \<open>
  Class \<open>Study\<close>: the two counts of the configuration, the cache \<open>eff_size\<close>, the deque
  \<open>future\<close> (its left end is the head of the list) and the file \<open>conf["fpoint"]\<close> as the
  lines not read yet.
\<close>

record Study =
  conf_n_cases :: int
  conf_n_controls :: int
  eff_size :: "real option"
  future :: "MetaDat list"
  fpoint :: "row list"

text \<open>
  \<open>Study.__init__\<close> once the configuration is accepted and the header line is read:
  an empty deque, an empty cache, the file at its first data line.
\<close>

definition Study_init :: "int \<Rightarrow> int \<Rightarrow> row list \<Rightarrow> Study" where
  "Study_init cases controls rows =
     \<lparr>conf_n_cases = cases, conf_n_controls = controls, eff_size = None, future = [],
      fpoint = rows\<rparr>"

text \<open>
  The buffer branch of \<open>get_next_data\<close>. The list \<open>f\<close> is
  \<open>[(i,v) for i,v in enumerate(self.future) if i==0 or (v.chr==self.future[i-1].chr and
  v.pos==self.future[i-1].pos)]\<close>; the index \<open>i - 1\<close> is read only for \<open>0 < i\<close>, where it
  is in range.
\<close>

definition in_batch :: "MetaDat list \<Rightarrow> nat \<times> MetaDat \<Rightarrow> bool" where
  "in_batch fut = (\<lambda>(i, v). i = 0 \<or> (chr v = chr (fut ! (i - 1)) \<and> pos v = pos (fut ! (i - 1))))"

definition future_batch :: "MetaDat list \<Rightarrow> (nat \<times> MetaDat) list" where
  "future_batch fut = filter (in_batch fut) (enumerate 0 fut)"

text \<open>
  \<open>del self.future[i]\<close>, and the loop \<open>for i,v in reversed(f): del self.future[i]\<close>.
  The indices of \<open>f\<close> ascend, so each is in range when its turn comes
  (lemma \<open>del_batch_complement\<close> below).
\<close>

definition del_at :: "nat \<Rightarrow> 'a list \<Rightarrow> 'a list" where
  "del_at i xs = take i xs @ drop (Suc i) xs"

definition del_batch :: "(nat \<times> 'a) list \<Rightarrow> 'a list \<Rightarrow> 'a list" where
  "del_batch f fut = foldl (\<lambda>ys (i, v). del_at i ys) fut (rev f)"

text \<open>
  The reading loop of \<open>get_next_data\<close>, on the lines left in the file. The inner loop of
  the source skips the lines whose contig is not in \<open>chrord\<close>; the outer loop collects
  in \<open>vars\<close> the records at the position of \<open>vars[0]\<close>. At the end of the file the
  source returns \<open>None\<close>, whatever \<open>vars\<close> holds. The result is the returned list, the
  deque and the lines left.
\<close>

fun read_rows ::
  "bool \<Rightarrow> MetaDat list \<Rightarrow> MetaDat list \<Rightarrow> row list
    \<Rightarrow> MetaDat list option \<times> MetaDat list \<times> row list" where
  "read_rows just_one vars fut [] = (None, fut, [])"
| "read_rows just_one vars fut (l # ls) =
     (case chrord (row_chr l) of
        None \<Rightarrow> read_rows just_one vars fut ls
      | Some c \<Rightarrow>
          (let v = make_dat c l in
           if (case vars of [] \<Rightarrow> True | v0 # _ \<Rightarrow> chr v0 = chr v \<and> pos v0 = pos v)
           then (if just_one then (Some (vars @ [v]), fut, ls)
                 else read_rows just_one (vars @ [v]) fut ls)
           else (Some vars, fut @ [v], ls)))"

definition get_next_data :: "bool \<Rightarrow> Study \<Rightarrow> MetaDat list option \<times> Study" where
  "get_next_data just_one s =
     (if length (future s) > 0 then
        (let f = future_batch (future s)
         in (Some (map snd f), s\<lparr>future := del_batch f (future s)\<rparr>))
      else
        (case read_rows just_one [] (future s) (fpoint s) of
           (r, fut, ls) \<Rightarrow> (r, s\<lparr>future := fut, fpoint := ls\<rparr>)))"

text \<open>\<open>put_back\<close>: \<open>for m in metadat: self.future.appendleft(m)\<close>.\<close>

definition put_back :: "MetaDat list \<Rightarrow> Study \<Rightarrow> Study" where
  "put_back metadat s = s\<lparr>future := foldl (\<lambda>fut m. m # fut) (future s) metadat\<rparr>"

text \<open>
  The order of \<open>get_match\<close>: \<open>o.chr < dat.chr or (o.chr == dat.chr and o.pos < dat.pos)\<close>.
\<close>

definition before :: "MetaDat \<Rightarrow> MetaDat \<Rightarrow> bool" where
  "before d dat = (chr d < chr dat \<or> (chr d = chr dat \<and> pos d < pos dat))"

definition stream_size :: "Study \<Rightarrow> nat" where
  "stream_size s = length (future s) + length (fpoint s)"

lemma read_rows_size:
  "read_rows just_one vars fut ls = (Some b, fut', ls')
   \<Longrightarrow> length fut' + length ls' \<le> length fut + length ls
     \<and> (vars = [] \<longrightarrow> length fut' + length ls' < length fut + length ls)"
proof (induction ls arbitrary: vars)
  case Nil
  then show ?case by simp
next
  case (Cons l ls)
  show ?case
  proof (cases "chrord (row_chr l)")
    case None
    with Cons.prems have "read_rows just_one vars fut ls = (Some b, fut', ls')" by simp
    from Cons.IH [OF this] show ?thesis by auto
  next
    case (Some c)
    let ?v = "make_dat c l"
    show ?thesis
    proof (cases "case vars of [] \<Rightarrow> True | v0 # _ \<Rightarrow> chr v0 = chr ?v \<and> pos v0 = pos ?v")
      case True
      show ?thesis
      proof (cases just_one)
        case True
        with Cons.prems Some \<open>case vars of [] \<Rightarrow> True | v0 # _ \<Rightarrow> chr v0 = chr ?v \<and> pos v0 = pos ?v\<close>
        show ?thesis by auto
      next
        case False
        with Cons.prems Some True
        have "read_rows just_one (vars @ [?v]) fut ls = (Some b, fut', ls')" by simp
        from Cons.IH [OF this] show ?thesis by auto
      qed
    next
      case False
      then have "vars \<noteq> []" by (auto split: list.splits)
      with Cons.prems Some False show ?thesis by auto
    qed
  qed
qed

lemma del_at_append: "i < length xs \<Longrightarrow> del_at i (xs @ ys) = del_at i xs @ ys"
  by (simp add: del_at_def)

lemma del_at_last: "del_at (length xs) (xs @ [x]) = xs"
  by (simp add: del_at_def)

lemma length_del_at: "i < length xs \<Longrightarrow> length (del_at i xs) = length xs - 1"
  by (simp add: del_at_def)

lemma del_fold_append:
  "sorted_wrt (>) (map fst f) \<Longrightarrow> \<forall>p\<in>set f. fst p < length xs
   \<Longrightarrow> foldl (\<lambda>ys (i, v). del_at i ys) (xs @ zs) f = foldl (\<lambda>ys (i, v). del_at i ys) xs f @ zs"
proof (induction f arbitrary: xs)
  case Nil
  then show ?case by simp
next
  case (Cons p f)
  obtain i v where p: "p = (i, v)" by (cases p)
  from Cons.prems p have i: "i < length xs" by simp
  have "\<forall>q\<in>set f. fst q < length (del_at i xs)"
    using Cons.prems p i by (auto simp: length_del_at)
  moreover have "sorted_wrt (>) (map fst f)" using Cons.prems by simp
  ultimately have "foldl (\<lambda>ys (i, v). del_at i ys) (del_at i xs @ zs) f
      = foldl (\<lambda>ys (i, v). del_at i ys) (del_at i xs) f @ zs"
    by (rule Cons.IH[rotated])
  then show ?case using p i by (simp add: del_at_append)
qed

lemma enumerate_filter_bound: "\<forall>p\<in>set (filter P (enumerate n xs)). fst p < n + length xs"
  by (auto simp: in_set_enumerate_eq)

lemma enumerate_filter_sorted: "sorted_wrt (>) (map fst (rev (filter P (enumerate n xs))))"
proof -
  have "sorted_wrt (<) (map fst (enumerate n xs))" by (simp add: sorted_wrt_upt)
  then have "sorted_wrt (\<lambda>x y. fst x < fst y) (enumerate n xs)"
    by (simp only: sorted_wrt_map)
  then have "sorted_wrt (\<lambda>x y. fst x < fst y) (filter P (enumerate n xs))"
    by (rule sorted_wrt_filter)
  then show ?thesis by (simp add: sorted_wrt_map sorted_wrt_rev)
qed

lemma del_batch_complement:
  "del_batch (filter P (enumerate 0 xs)) xs = map snd (filter (\<lambda>p. \<not> P p) (enumerate 0 xs))"
proof (induction xs rule: rev_induct)
  case Nil
  then show ?case by (simp add: del_batch_def)
next
  case (snoc x xs)
  have en: "enumerate 0 (xs @ [x]) = enumerate 0 xs @ [(length xs, x)]"
    by (simp add: enumerate_append_eq)
  let ?f = "filter P (enumerate 0 xs)"
  have bound: "\<forall>p\<in>set (rev ?f). fst p < length xs"
    using enumerate_filter_bound[of P 0 xs] by simp
  have srt: "sorted_wrt (>) (map fst (rev ?f))" by (rule enumerate_filter_sorted)
  show ?case
  proof (cases "P (length xs, x)")
    case True
    then show ?thesis using snoc.IH
      by (simp add: en del_batch_def del_at_last)
  next
    case False
    then show ?thesis using snoc.IH del_fold_append[OF srt bound, of "[x]"]
      by (simp add: en del_batch_def)
  qed
qed

lemma get_next_data_size:
  assumes "get_next_data just_one s = (Some b, s')"
  shows "stream_size s' < stream_size s"
proof (cases "length (future s) > 0")
  case True
  let ?xs = "future s"
  let ?e = "enumerate 0 ?xs"
  have "(0, hd ?xs) \<in> set ?e" using True
    by (cases ?xs) (auto simp: in_set_enumerate_eq)
  moreover have "in_batch ?xs (0, hd ?xs)" by (simp add: in_batch_def)
  ultimately have "(0, hd ?xs) \<in> set (filter (in_batch ?xs) ?e)" by simp
  then have ne: "filter (in_batch ?xs) ?e \<noteq> []" by (metis empty_iff list.set(1))
  have sm: "length (filter (in_batch ?xs) ?e) + length (filter (\<lambda>p. \<not> in_batch ?xs p) ?e) = length ?xs"
    using sum_length_filter_compl[of "in_batch ?xs" ?e] by simp
  have "length (map snd (filter (\<lambda>p. \<not> in_batch ?xs p) ?e)) < length ?xs"
    using ne sm by (cases "filter (in_batch ?xs) ?e") auto
  then have "length (del_batch (future_batch ?xs) ?xs) < length ?xs"
    by (simp only: future_batch_def del_batch_complement)
  with assms True show ?thesis
    by (auto simp: get_next_data_def stream_size_def Let_def)
next
  case False
  with assms obtain fut ls where r: "read_rows just_one [] (future s) (fpoint s) = (Some b, fut, ls)"
    and s': "s' = s\<lparr>future := fut, fpoint := ls\<rparr>"
    by (auto simp: get_next_data_def split: prod.splits)
  from read_rows_size[OF r] s' show ?thesis by (simp add: stream_size_def)
qed

text \<open>
  The loop of \<open>get_match\<close>:
  \<open>while otherdats is not None and (otherdats[0] sorts before dat): otherdats = self.get_next_data()\<close>.
  \<open>otherdats[0]\<close> on an empty list raises \<open>IndexError\<close>. Every batch that
  \<open>get_next_data\<close> returns shrinks the stream, which is why the loop ends.
\<close>

function skip_before ::
  "MetaDat \<Rightarrow> MetaDat list option \<times> Study \<Rightarrow> error + (MetaDat list option \<times> Study)" where
  "skip_before dat (None, s) = Inr (None, s)"
| "skip_before dat (Some [], s) = Inl IndexError"
| "skip_before dat (Some (d # ds), s) =
     (if before d dat then skip_before dat (get_next_data False s) else Inr (Some (d # ds), s))"
  by pat_completeness auto
termination
proof (relation "measure (\<lambda>(dat, od, s). case od of None \<Rightarrow> 0 | Some _ \<Rightarrow> Suc (stream_size s))")
  show "wf (measure (\<lambda>(dat, od, s). case od of None \<Rightarrow> 0 | Some _ \<Rightarrow> Suc (stream_size s)))"
    by simp
next
  fix dat :: MetaDat and d ds s
  assume "before d dat"
  obtain od' s' where g: "get_next_data False s = (od', s')" by (cases "get_next_data False s")
  show "((dat, get_next_data False s), (dat, Some (d # ds), s))
        \<in> measure (\<lambda>(dat, od, s). case od of None \<Rightarrow> 0 | Some _ \<Rightarrow> Suc (stream_size s))"
  proof (cases od')
    case None
    with g show ?thesis by simp
  next
    case (Some b)
    with g get_next_data_size[of False s b s'] show ?thesis by simp
  qed
qed

text \<open>
  The scan of \<open>get_match\<close>: \<open>for i,v in enumerate(otherdats): if v.equalize(dat): del
  otherdats[i]; ...; return v\<close>. \<open>seen\<close> holds the records already tested, as
  \<open>equalize\<close> left them; the result is the match, if any, and the list that is put back.
\<close>

fun find_match ::
  "MetaDat \<Rightarrow> MetaDat list \<Rightarrow> MetaDat list \<Rightarrow> error + (MetaDat option \<times> MetaDat list)" where
  "find_match dat seen [] = Inr (None, seen)"
| "find_match dat seen (v # vs) =
     (case equalize v dat of
        Inl e \<Rightarrow> Inl e
      | Inr (r, v') \<Rightarrow>
          if truthy r then Inr (Some v', seen @ vs) else find_match dat (seen @ [v']) vs)"

definition get_match :: "MetaDat \<Rightarrow> Study \<Rightarrow> error + (MetaDat option \<times> Study)" where
  "get_match dat s =
     (case get_next_data False s of
        (otherdats, s1) \<Rightarrow>
          if otherdats = None \<or> otherdats = Some [] then Inr (None, s1)
          else
            (case skip_before dat (otherdats, s1) of
               Inl e \<Rightarrow> Inl e
             | Inr (None, s2) \<Rightarrow> Inr (None, s2)
             | Inr (Some [], s2) \<Rightarrow> Inl IndexError
             | Inr (Some (d # ds), s2) \<Rightarrow>
                 if chr d > chr dat \<or> pos d > pos dat then Inr (None, put_back (d # ds) s2)
                 else
                   (case find_match dat [] (d # ds) of
                      Inl e \<Rightarrow> Inl e
                    | Inr (m, rest) \<Rightarrow> Inr (m, put_back rest s2))))"

section \<open>Combiners\<close>

text \<open>
  The properties \<open>n_cases\<close> and \<open>n_controls\<close> of \<open>Study\<close>; both read
  \<open>self.conf["n_cases"]\<close> in the source.
\<close>

definition n_cases :: "Study \<Rightarrow> int" where
  "n_cases s = conf_n_cases s"

definition n_controls :: "Study \<Rightarrow> int" where
  "n_controls s = conf_n_cases s"

text \<open>Python's \<open>/\<close> on numbers and \<open>math.sqrt\<close>, over the reals.\<close>

definition py_div :: "real \<Rightarrow> real \<Rightarrow> error + real" where
  "py_div a b = (if b = 0 then Inl ZeroDivisionError else Inr (a / b))"

definition py_sqrt :: "real \<Rightarrow> error + real" where
  "py_sqrt x = (if x < 0 then Inl ValueError else Inr (sqrt x))"

text \<open>
  The property \<open>effective_size\<close>, with its cache: the value and the study after the
  call.
\<close>

definition effective_size :: "Study \<Rightarrow> error + (real \<times> Study)" where
  "effective_size s =
     (case eff_size s of
        Some e \<Rightarrow> Inr (e, s)
      | None \<Rightarrow>
          (case py_div (of_int (4 * n_cases s * n_controls s)) (of_int (n_cases s + n_controls s)) of
             Inl e \<Rightarrow> Inl e
           | Inr e \<Rightarrow> Inr (e, s\<lparr>eff_size := Some e\<rparr>)))"

text \<open>
  The three functions the combiners call in scipy and numpy are parameters:
  \<open>scipy.stats.norm.sf\<close>, \<open>chi2.isf(., df=1)\<close> and \<open>numpy.sign\<close>. The last two are
  applied to fields that may be \<open>None\<close>; what they do then is theirs to say.
\<close>

record lib =
  norm_sf :: "real \<Rightarrow> real"
  chi2_isf :: "real option \<Rightarrow> error + real"
  numpy_sign :: "real option \<Rightarrow> error + real"

text \<open>The property \<open>z_score\<close>, with its cache \<open>z_scr\<close>.\<close>

definition z_score :: "lib \<Rightarrow> MetaDat \<Rightarrow> error + (real \<times> MetaDat)" where
  "z_score L d =
     (case z_scr d of
        Some z \<Rightarrow> Inr (z, d)
      | None \<Rightarrow>
          (case chi2_isf L (pval d) of
             Inl e \<Rightarrow> Inl e
           | Inr q \<Rightarrow>
               (case py_sqrt q of
                  Inl e \<Rightarrow> Inl e
                | Inr z \<Rightarrow> Inr (z, d\<lparr>z_scr := Some z\<rparr>))))"

text \<open>
  The combiners return a p-value, \<open>None\<close>, or raise. The caches they fill on the way
  (\<open>eff_size\<close>, \<open>z_scr\<close>) are not part of their result here: a cached value is the one a
  second computation would give. Each loop carries the list of terms and the running
  total of the source; \<open>break\<close> ends the loop with what it has.
\<close>

fun n_meta_loop ::
  "lib \<Rightarrow> (Study \<times> MetaDat) list \<Rightarrow> real list \<Rightarrow> real \<Rightarrow> error + (real list \<times> real)" where
  "n_meta_loop L [] effs_size tot_size = Inr (effs_size, tot_size)"
| "n_meta_loop L ((study, dat) # ss) effs_size tot_size =
     (case effective_size study of
        Inl e \<Rightarrow> Inl e
      | Inr (n, study') \<Rightarrow>
     (case py_sqrt n of
        Inl e \<Rightarrow> Inl e
      | Inr w \<Rightarrow>
     (case numpy_sign L (beta dat) of
        Inl e \<Rightarrow> Inl e
      | Inr sg \<Rightarrow>
     (case z_score L dat of
        Inl e \<Rightarrow> Inl e
      | Inr (z, dat') \<Rightarrow> n_meta_loop L ss (effs_size @ [w * sg * z]) (tot_size + n)))))"

definition n_meta :: "lib \<Rightarrow> (Study \<times> MetaDat) list \<Rightarrow> error + real option" where
  "n_meta L studies =
     (case n_meta_loop L studies [] 0 of
        Inl e \<Rightarrow> Inl e
      | Inr (effs_size, tot_size) \<Rightarrow>
     (case py_sqrt tot_size of
        Inl e \<Rightarrow> Inl e
      | Inr r \<Rightarrow>
     (case py_div \<bar>sum_list effs_size\<bar> r of
        Inl e \<Rightarrow> Inl e
      | Inr z \<Rightarrow> Inr (Some (norm_sf L z)))))"

fun inv_var_loop ::
  "(Study \<times> MetaDat) list \<Rightarrow> real list \<Rightarrow> real \<Rightarrow> error + (real list \<times> real)" where
  "inv_var_loop [] effs_inv_var tot_se = Inr (effs_inv_var, tot_se)"
| "inv_var_loop ((study, dat) # ss) effs_inv_var tot_se =
     (case se dat of
        None \<Rightarrow> Inr (effs_inv_var, tot_se)
      | Some e \<Rightarrow>
          if e = 0 then Inr (effs_inv_var, tot_se)
          else
            (let var = e * e in
             case py_div 1 var of
               Inl err \<Rightarrow> Inl err
             | Inr w \<Rightarrow>
                 (case beta dat of
                    None \<Rightarrow> Inl TypeError
                  | Some b \<Rightarrow> inv_var_loop ss (effs_inv_var @ [var * b]) (tot_se + w))))"

definition inv_var_meta :: "lib \<Rightarrow> (Study \<times> MetaDat) list \<Rightarrow> error + real option" where
  "inv_var_meta L studies =
     (case inv_var_loop studies [] 0 of
        Inl e \<Rightarrow> Inl e
      | Inr (effs_inv_var, tot_se) \<Rightarrow>
          if length effs_inv_var = length studies then
            (case py_sqrt tot_se of
               Inl e \<Rightarrow> Inl e
             | Inr r \<Rightarrow>
            (case py_div (sum_list effs_inv_var) r of
               Inl e \<Rightarrow> Inl e
             | Inr z \<Rightarrow> Inr (Some (norm_sf L \<bar>z\<bar>))))
          else Inr None)"

fun variance_weight_loop ::
  "lib \<Rightarrow> (Study \<times> MetaDat) list \<Rightarrow> real list \<Rightarrow> real \<Rightarrow> error + (real list \<times> real)" where
  "variance_weight_loop L [] effs_se tot_se = Inr (effs_se, tot_se)"
| "variance_weight_loop L ((study, dat) # ss) effs_se tot_se =
     (case se dat of
        None \<Rightarrow> Inr (effs_se, tot_se)
      | Some e \<Rightarrow>
          if e = 0 then Inr (effs_se, tot_se)
          else
            (case py_div 1 e of
               Inl err \<Rightarrow> Inl err
             | Inr w \<Rightarrow>
            (case numpy_sign L (beta dat) of
               Inl err \<Rightarrow> Inl err
             | Inr sg \<Rightarrow>
            (case z_score L dat of
               Inl err \<Rightarrow> Inl err
             | Inr (z, dat') \<Rightarrow>
            (case py_div 1 (e * e) of
               Inl err \<Rightarrow> Inl err
             | Inr w2 \<Rightarrow> variance_weight_loop L ss (effs_se @ [w * sg * z]) (tot_se + w2))))))"

definition variance_weight_meta :: "lib \<Rightarrow> (Study \<times> MetaDat) list \<Rightarrow> error + real option" where
  "variance_weight_meta L studies =
     (case variance_weight_loop L studies [] 0 of
        Inl e \<Rightarrow> Inl e
      | Inr (effs_se, tot_se) \<Rightarrow>
          if length effs_se = length studies then
            (case py_sqrt tot_se of
               Inl e \<Rightarrow> Inl e
             | Inr r \<Rightarrow>
            (case py_div \<bar>sum_list effs_se\<bar> r of
               Inl e \<Rightarrow> Inl e
             | Inr z \<Rightarrow> Inr (Some (norm_sf L z))))
          else Inr None)"

section \<open>The calls of the main loop on one study\<close>

text \<open>
  For every record \<open>d\<close> of the first study, \<open>run\<close> calls \<open>oth.get_match(d)\<close> on each
  other study \<open>oth\<close>. Seen from one such study, this is a sequence of \<open>get_match\<close>
  calls, one per target, each on the state the previous call left; an exception ends it.
\<close>

fun get_matches :: "MetaDat list \<Rightarrow> Study \<Rightarrow> error + (MetaDat option list \<times> Study)" where
  "get_matches [] s = Inr ([], s)"
| "get_matches (dat # dats) s =
     (case get_match dat s of
        Inl e \<Rightarrow> Inl e
      | Inr (m, s1) \<Rightarrow>
          (case get_matches dats s1 of
             Inl e \<Rightarrow> Inl e
           | Inr (ms, s') \<Rightarrow> Inr (m # ms, s')))"

section \<open>Notions for the stream properties\<close>

text \<open>
  The records that the reading loop builds from a stretch of lines: one for each line
  whose contig is a key of \<open>chrord\<close>, in the order of the file.
\<close>

fun records_of :: "row list \<Rightarrow> MetaDat list" where
  "records_of [] = []"
| "records_of (l # ls) =
     (case chrord (row_chr l) of None \<Rightarrow> records_of ls | Some c \<Rightarrow> make_dat c l # records_of ls)"

text \<open>The position of a record, as the comparisons of the source read it.\<close>

definition poskey :: "MetaDat \<Rightarrow> int \<times> int" where
  "poskey d = (chr d, pos d)"

text \<open>
  The shape the deque has between two calls of \<open>get_match\<close>: records of one position,
  followed by at most one record (the look-ahead). It is stated on the deque alone, as
  what is left after dropping the records at the position of the first one.
\<close>

definition buffer_ok :: "MetaDat list \<Rightarrow> bool" where
  "buffer_ok fut =
     (case fut of
        [] \<Rightarrow> True
      | a # _ \<Rightarrow> length (dropWhile (\<lambda>v. chr v = chr a \<and> pos v = pos a) fut) \<le> 1)"

text \<open>
  A batch as \<open>get_next_data\<close> hands it to \<open>get_match\<close>, with the deque it leaves: a
  non-empty list of records of one position, and at most one record left, of another
  position.
\<close>

definition batch_ok :: "MetaDat list \<Rightarrow> MetaDat list \<Rightarrow> bool" where
  "batch_ok b fut =
     (b \<noteq> [] \<and> (\<forall>x\<in>set b. \<forall>y\<in>set b. poskey x = poskey y)
      \<and> length fut \<le> 1 \<and> (\<forall>v\<in>set fut. \<forall>x\<in>set b. poskey v \<noteq> poskey x))"

text \<open>
  The value of \<open>otherdats\<close> in \<open>get_match\<close> is a batch or \<open>None\<close>: the records it
  holds, and the condition above when it is a batch.
\<close>

fun batch_list :: "MetaDat list option \<Rightarrow> MetaDat list" where
  "batch_list None = []"
| "batch_list (Some b) = b"

definition batch_pre :: "MetaDat list option \<Rightarrow> MetaDat list \<Rightarrow> bool" where
  "batch_pre od fut = (case od of None \<Rightarrow> True | Some b \<Rightarrow> batch_ok b fut)"

text \<open>
  \<open>matched_from dats ms origs\<close>: \<open>ms\<close> are the results of the calls for the targets
  \<open>dats\<close>, and \<open>origs\<close> lists, in order, the records of the stream that were returned:
  each returned record is what \<open>equalize\<close> made of a record of the stream when it
  answered \<open>True\<close> for that target.
\<close>

fun matched_from :: "MetaDat list \<Rightarrow> MetaDat option list \<Rightarrow> MetaDat list \<Rightarrow> bool" where
  "matched_from [] [] vs = (vs = [])"
| "matched_from (dat # dats) (None # ms) vs = matched_from dats ms vs"
| "matched_from (dat # dats) (Some v' # ms) (v # vs) =
     (equalize v dat = Inr (Some True, v') \<and> matched_from dats ms vs)"
| "matched_from _ _ _ = False"

section \<open>Properties of the equaliser\<close>

lemma is_symmetric_flip_ok:
  assumes "is_symmetric a1 a2"
  shows "\<exists>f1 f2. flip_strand a1 = Inr f1 \<and> flip_strand a2 = Inr f2"
  using assms by (auto simp: is_symmetric_def flip_def)

lemma is_symmetric_distinct: "is_symmetric a1 a2 \<Longrightarrow> a1 \<noteq> a2"
  by (auto simp: is_symmetric_def)

lemma swap_alleles_eq:
  "swap_alleles self = self\<lparr>ref := alt self, alt := ref self, beta := map_option uminus (beta self)\<rparr>"
  by (cases "beta self") (simp_all add: swap_alleles_def)

text \<open>
  Claim C8. When \<open>(other.ref, other.alt)\<close> is a palindromic pair and the two records share
  chromosome and position, \<open>equalize\<close> raises nothing and never flips the strand: on an
  exact allele match it returns \<open>True\<close> and leaves \<open>self\<close> as it is; on a swapped-order
  match it returns \<open>True\<close>, exchanges \<open>self\<close>'s alleles and negates \<open>self\<close>'s effect (an
  effect that is \<open>None\<close> stays \<open>None\<close>); on any other alleles its result is not truthy and
  \<open>self\<close> is unchanged. For a palindromic pair the strand flip of \<open>(ref, alt)\<close> is
  \<open>(alt, ref)\<close>, which the second case treats as a swap.
\<close>

theorem equalize_palindromic:
  assumes "chr self = chr other" and "pos self = pos other"
    and "is_symmetric (ref other) (alt other)"
  shows "\<exists>r self'. equalize self other = Inr (r, self')
     \<and> (ref self = ref other \<and> alt self = alt other \<longrightarrow> r = Some True \<and> self' = self)
     \<and> (ref self = alt other \<and> alt self = ref other \<longrightarrow>
          r = Some True
          \<and> self' = self\<lparr>ref := alt self, alt := ref self, beta := map_option uminus (beta self)\<rparr>)
     \<and> (\<not> (ref self = ref other \<and> alt self = alt other)
        \<and> \<not> (ref self = alt other \<and> alt self = ref other) \<longrightarrow> \<not> truthy r \<and> self' = self)"
proof -
  from is_symmetric_flip_ok [OF assms(3)] obtain f1 f2
    where f: "flip_strand (ref other) = Inr f1" "flip_strand (alt other) = Inr f2" by blast
  from is_symmetric_distinct [OF assms(3)] have ne: "ref other \<noteq> alt other" .
  show ?thesis
    using assms f ne by (auto simp: equalize_def swap_alleles_eq truthy_def)
qed

theorem equalize_palindromic_witness:
  "is_symmetric ''A'' ''T''
   \<and> equalize (MetaDat_init 1 100 ''T'' ''A'' (Some 2) (Some (1/2)) None [])
            (MetaDat_init 1 100 ''A'' ''T'' (Some 1) (Some (1/2)) None [])
     = Inr (Some True, MetaDat_init 1 100 ''A'' ''T'' (Some (- 2)) (Some (1/2)) None [])"
proof -
  let ?S = "MetaDat_init 1 100 ''T'' ''A'' (Some 2) (Some (1/2)) None []"
  let ?O = "MetaDat_init 1 100 ''A'' ''T'' (Some 1) (Some (1/2)) None []"
  have sym: "is_symmetric ''A'' ''T''" by (simp add: is_symmetric_def)
  have h: "chr ?S = chr ?O" "pos ?S = pos ?O" "is_symmetric (ref ?O) (alt ?O)"
    using sym by (simp_all add: MetaDat_init_def)
  from equalize_palindromic [OF h] obtain r s' where e: "equalize ?S ?O = Inr (r, s')"
    and sw: "ref ?S = alt ?O \<and> alt ?S = ref ?O \<longrightarrow>
      r = Some True \<and> s' = ?S\<lparr>ref := alt ?S, alt := ref ?S, beta := map_option uminus (beta ?S)\<rparr>"
    by blast
  have "ref ?S = alt ?O \<and> alt ?S = ref ?O" by (simp add: MetaDat_init_def)
  with sw have r: "r = Some True"
    and s: "s' = ?S\<lparr>ref := alt ?S, alt := ref ?S, beta := map_option uminus (beta ?S)\<rparr>" by blast+
  have "equalize ?S ?O
      = Inr (Some True, ?S\<lparr>ref := alt ?S, alt := ref ?S, beta := map_option uminus (beta ?S)\<rparr>)"
    by (simp only: e r s)
  moreover have "?S\<lparr>ref := alt ?S, alt := ref ?S, beta := map_option uminus (beta ?S)\<rparr>
      = MetaDat_init 1 100 ''A'' ''T'' (Some (- 2)) (Some (1/2)) None []"
    by (simp add: MetaDat_init_def)
  ultimately show ?thesis using sym by simp
qed

text \<open>
  Claim C10. When chromosome or position differ, and when they agree but \<open>other\<close>'s
  alleles are a palindromic pair that \<open>self\<close>'s alleles match neither exactly nor in
  swapped order, \<open>equalize\<close> reaches no \<open>return\<close>: its value is \<open>None\<close>, not \<open>False\<close>, and
  \<open>self\<close> keeps every field. (\<open>other\<close> is only read by \<open>equalize\<close>.)
\<close>

theorem equalize_no_return:
  assumes "chr self \<noteq> chr other \<or> pos self \<noteq> pos other
     \<or> (is_symmetric (ref other) (alt other)
        \<and> \<not> (ref self = ref other \<and> alt self = alt other)
        \<and> \<not> (ref self = alt other \<and> alt self = ref other))"
  shows "equalize self other = Inr (None, self)"
proof (cases "chr self = chr other \<and> pos self = pos other")
  case False
  show ?thesis by (simp only: equalize_def False if_False)
next
  case True
  with assms have sym: "is_symmetric (ref other) (alt other)"
    and ne: "\<not> (ref self = ref other \<and> alt self = alt other)"
            "\<not> (ref self = alt other \<and> alt self = ref other)" by auto
  from is_symmetric_flip_ok [OF sym] obtain f1 f2
    where f: "flip_strand (ref other) = Inr f1" "flip_strand (alt other) = Inr f2" by blast
  show ?thesis using True sym ne f by (simp add: equalize_def)
qed

theorem equalize_no_return_witness:
  "equalize (MetaDat_init 1 100 ''A'' ''C'' (Some 2) (Some (1/2)) None [])
            (MetaDat_init 1 100 ''A'' ''T'' (Some 1) (Some (1/2)) None [])
     = Inr (None, MetaDat_init 1 100 ''A'' ''C'' (Some 2) (Some (1/2)) None [])
   \<and> equalize (MetaDat_init 1 100 ''A'' ''T'' (Some 2) (Some (1/2)) None [])
            (MetaDat_init 1 200 ''A'' ''T'' (Some 1) (Some (1/2)) None [])
     = Inr (None, MetaDat_init 1 100 ''A'' ''T'' (Some 2) (Some (1/2)) None [])"
  using equalize_no_return [of "MetaDat_init 1 100 ''A'' ''C'' (Some 2) (Some (1/2)) None []"
      "MetaDat_init 1 100 ''A'' ''T'' (Some 1) (Some (1/2)) None []"]
    equalize_no_return [of "MetaDat_init 1 100 ''A'' ''T'' (Some 2) (Some (1/2)) None []"
      "MetaDat_init 1 200 ''A'' ''T'' (Some 1) (Some (1/2)) None []"]
  by (simp add: MetaDat_init_def is_symmetric_def)

section \<open>Where the equaliser departs from its description\<close>

text \<open>
  Claim C3. \<open>other = (A, G)\<close> is not palindromic; \<open>self = (G, T)\<close> has \<open>self.ref = other.alt\<close>
  and \<open>self.alt\<close> the complement of \<open>other.ref\<close>, so the claim promises \<open>True\<close> with the
  alleles swapped and the effect negated. The second test of the source compares
  \<open>self.alt\<close> with \<open>flip_alt\<close> where the first test's pattern calls for \<open>flip_ref\<close>, and
  \<open>equalize\<close> returns \<open>False\<close> with \<open>self\<close> unchanged.
\<close>

theorem equalize_swapped_strand_flip_rejected:
  "\<not> is_symmetric ''A'' ''G''
   \<and> flip_strand ''A'' = Inr ''T''
   \<and> equalize (MetaDat_init 1 100 ''G'' ''T'' (Some 2) (Some (1/2)) None [])
              (MetaDat_init 1 100 ''A'' ''G'' (Some 1) (Some (1/2)) None [])
     = Inr (Some False, MetaDat_init 1 100 ''G'' ''T'' (Some 2) (Some (1/2)) None [])"
  by (simp add: equalize_def MetaDat_init_def is_symmetric_def flip_def)

text \<open>
  Claim C5. The same two records at one position: with \<open>(G, T)\<close> as \<open>self\<close> and \<open>(A, G)\<close>
  as \<open>other\<close> the result is \<open>False\<close>; with the roles exchanged it is \<open>True\<close> (and \<open>self\<close>
  is swapped and negated). The outcome depends on which record plays \<open>self\<close>.
\<close>

theorem equalize_outcome_depends_on_roles:
  "equalize (MetaDat_init 1 100 ''G'' ''T'' (Some 2) (Some (1/2)) None [])
            (MetaDat_init 1 100 ''A'' ''G'' (Some 1) (Some (1/2)) None [])
     = Inr (Some False, MetaDat_init 1 100 ''G'' ''T'' (Some 2) (Some (1/2)) None [])
   \<and> equalize (MetaDat_init 1 100 ''A'' ''G'' (Some 1) (Some (1/2)) None [])
            (MetaDat_init 1 100 ''G'' ''T'' (Some 2) (Some (1/2)) None [])
     = Inr (Some True, MetaDat_init 1 100 ''G'' ''A'' (Some (- 1)) (Some (1/2)) None [])"
  by (simp add: equalize_def MetaDat_init_def is_symmetric_def flip_def swap_alleles_def)

section \<open>Combiners: evaluation at concrete inputs\<close>

text \<open>
  Claim C7. A study configured with 1 case and 3 controls: \<open>effective_size\<close> is
  \<open>4 * 1 * 1 / (1 + 1) = 2\<close>, because \<open>n_controls\<close> reads \<open>n_cases\<close>; the claim's formula
  gives \<open>4 * 1 * 3 / (1 + 3) = 3\<close>.
\<close>

theorem effective_size_ignores_controls:
  "effective_size (Study_init 1 3 []) = Inr (2, (Study_init 1 3 [])\<lparr>eff_size := Some 2\<rparr>)
   \<and> (2 :: real) \<noteq> 4 * 1 * 3 / (1 + 3)"
  by (simp add: effective_size_def Study_init_def n_cases_def n_controls_def py_div_def)

text \<open>
  Claim C4. One pair with \<open>beta = 1\<close> and \<open>se = 2\<close>: the term that \<open>inv_var_meta\<close>
  collects is \<open>var * beta = 4\<close>, not \<open>beta / se^2 = 1/4\<close>; the total of \<open>1/var\<close> is \<open>1/4\<close>,
  and the result is the survival function at \<open>4 / sqrt (1/4) = 8\<close>, where the claim's
  formula gives \<open>(1/4) / sqrt (1/4) = 1/2\<close>.
\<close>

theorem inv_var_meta_multiplies_by_variance:
  "inv_var_loop [(Study_init 1 1 [], MetaDat_init 1 100 ''A'' ''G'' (Some 1) (Some (1/2)) (Some 2) [])] [] 0
     = Inr ([4], 1 / 4)
   \<and> inv_var_meta L [(Study_init 1 1 [], MetaDat_init 1 100 ''A'' ''G'' (Some 1) (Some (1/2)) (Some 2) [])]
     = Inr (Some (norm_sf L 8))
   \<and> (4 :: real) \<noteq> 1 / (2 * 2)"
  by (simp add: inv_var_meta_def MetaDat_init_def py_div_def py_sqrt_def real_sqrt_divide)

text \<open>
  Claim C6. A record whose effect did not parse (\<open>beta\<close> and \<open>pval\<close> are \<open>None\<close>) and
  whose standard error is 1: \<open>inv_var_meta\<close> passes the standard-error test and raises
  \<open>TypeError\<close> at \<open>var * dat.beta\<close>. A study configured with 0 cases: \<open>n_meta\<close> raises
  \<open>ZeroDivisionError\<close> in \<open>effective_size\<close>. Neither returns a p-value or \<open>None\<close>.
\<close>

theorem combiners_raise:
  "inv_var_meta L [(Study_init 1 1 [], MetaDat_init 1 100 ''A'' ''G'' None None (Some 1) [])]
     = Inl TypeError
   \<and> n_meta L [(Study_init 0 5 [], MetaDat_init 1 100 ''A'' ''G'' (Some 1) (Some (1/2)) (Some 1) [])]
     = Inl ZeroDivisionError"
  by (simp add: inv_var_meta_def n_meta_def MetaDat_init_def py_div_def py_sqrt_def
      effective_size_def Study_init_def n_cases_def n_controls_def)

section \<open>The look-ahead buffer\<close>

text \<open>
  Claim C9. A buffer holding two records of one position: \<open>get_next_data\<close> with
  \<open>just_one = True\<close> returns both and empties the buffer. The buffer branch of the
  source never reads \<open>just_one\<close>; only the reading loop does.
\<close>

theorem get_next_data_ignores_just_one:
  "get_next_data True
     ((Study_init 1 1 [])\<lparr>future :=
        [MetaDat_init 1 100 ''A'' ''G'' (Some 1) (Some (1/2)) None [],
         MetaDat_init 1 100 ''A'' ''C'' (Some 2) (Some (1/4)) None []]\<rparr>)
   = (Some [MetaDat_init 1 100 ''A'' ''G'' (Some 1) (Some (1/2)) None [],
           MetaDat_init 1 100 ''A'' ''C'' (Some 2) (Some (1/4)) None []],
      Study_init 1 1 [])"
  by (simp add: get_next_data_def future_batch_def in_batch_def del_batch_def del_at_def
      Study_init_def MetaDat_init_def)

lemma put_back_future: "future (put_back ms s) = rev ms @ future s"
proof -
  have "foldl (\<lambda>fut m. m # fut) fut ms = rev ms @ fut" for fut :: "MetaDat list"
    by (induction ms arbitrary: fut) simp_all
  then show ?thesis by (simp add: put_back_def)
qed

text \<open>
  Claim C2, as stated, fails: \<open>put_back [a, b]\<close> on an empty buffer leaves \<open>[b, a]\<close>, and
  the next \<open>get_next_data\<close> does not return \<open>[a, b]\<close>. Each record is pushed on the left
  end in turn, which reverses the list.
\<close>

theorem put_back_reverses_counterexample:
  "future (put_back [MetaDat_init 1 100 ''A'' ''G'' (Some 1) (Some (1/2)) None [],
                     MetaDat_init 1 100 ''A'' ''C'' (Some 2) (Some (1/4)) None []]
             (Study_init 1 1 []))
     = [MetaDat_init 1 100 ''A'' ''C'' (Some 2) (Some (1/4)) None [],
        MetaDat_init 1 100 ''A'' ''G'' (Some 1) (Some (1/2)) None []]
   \<and> fst (get_next_data False
          (put_back [MetaDat_init 1 100 ''A'' ''G'' (Some 1) (Some (1/2)) None [],
                     MetaDat_init 1 100 ''A'' ''C'' (Some 2) (Some (1/4)) None []]
             (Study_init 1 1 [])))
     \<noteq> Some [MetaDat_init 1 100 ''A'' ''G'' (Some 1) (Some (1/2)) None [],
              MetaDat_init 1 100 ''A'' ''C'' (Some 2) (Some (1/4)) None []]"
  by (simp add: get_next_data_def future_batch_def in_batch_def del_batch_def del_at_def
      Study_init_def MetaDat_init_def put_back_def)

lemma batch_of_group:
  assumes "grp \<noteq> []" and "\<forall>m\<in>set grp. chr m = c \<and> pos m = p"
    and "length rest \<le> 1" and "\<forall>v\<in>set rest. \<not> (chr v = c \<and> pos v = p)"
  shows "filter (in_batch (grp @ rest)) (enumerate 0 (grp @ rest)) = enumerate 0 grp"
    and "filter (\<lambda>q. \<not> in_batch (grp @ rest) q) (enumerate 0 (grp @ rest))
         = enumerate (length grp) rest"
proof -
  have en: "enumerate 0 (grp @ rest) = enumerate 0 grp @ enumerate (length grp) rest"
    by (simp add: enumerate_append_eq)
  have inside: "in_batch (grp @ rest) q" if "q \<in> set (enumerate 0 grp)" for q
  proof -
    obtain i v where q: "q = (i, v)" by (cases q)
    with that have i: "i < length grp" and v: "v = grp ! i" by (auto simp: in_set_enumerate_eq)
    show ?thesis
    proof (cases "i = 0")
      case True
      then show ?thesis by (simp add: q in_batch_def)
    next
      case False
      with i have "(grp @ rest) ! (i - 1) = grp ! (i - 1)" "grp ! (i - 1) \<in> set grp"
        by (simp_all add: nth_append)
      moreover have "v \<in> set grp" using i v by simp
      ultimately show ?thesis using assms(2) by (simp add: q in_batch_def)
    qed
  qed
  have outside: "\<not> in_batch (grp @ rest) q" if "q \<in> set (enumerate (length grp) rest)" for q
  proof -
    from assms(3) that obtain v where rest: "rest = [v]" and q: "q = (length grp, v)"
      by (cases rest) auto
    have "(grp @ rest) ! (length grp - 1) = last grp"
      using assms(1) by (simp add: nth_append last_conv_nth)
    moreover have "last grp \<in> set grp" using assms(1) by simp
    ultimately show ?thesis using assms(1,2,4) rest by (auto simp: q in_batch_def)
  qed
  show "filter (in_batch (grp @ rest)) (enumerate 0 (grp @ rest)) = enumerate 0 grp"
    using inside outside by (simp add: en filter_id_conv filter_empty_conv)
  show "filter (\<lambda>q. \<not> in_batch (grp @ rest) q) (enumerate 0 (grp @ rest))
         = enumerate (length grp) rest"
    using inside outside by (simp add: en filter_id_conv filter_empty_conv)
qed

lemma get_next_data_group:
  assumes "future s = grp @ rest" and "grp \<noteq> []" and "\<forall>m\<in>set grp. chr m = c \<and> pos m = p"
    and "length rest \<le> 1" and "\<forall>v\<in>set rest. \<not> (chr v = c \<and> pos v = p)"
  shows "get_next_data just_one s = (Some grp, s\<lparr>future := rest\<rparr>)"
proof -
  note b = batch_of_group [OF assms(2-5)]
  have "map snd (future_batch (future s)) = grp"
    by (simp add: future_batch_def assms(1) b(1) map_snd_enumerate)
  moreover have "del_batch (future_batch (future s)) (future s) = rest"
    by (simp add: future_batch_def assms(1) del_batch_complement b(2) map_snd_enumerate)
  ultimately show ?thesis using assms(1,2) by (simp add: get_next_data_def Let_def)
qed

text \<open>
  Claim C2, amended. For every list of records, \<open>put_back\<close> puts them at the front of the
  buffer in reverse order, before everything the buffer holds; the empty list leaves
  the stream as it is. When the list is not empty, its records share one position and
  the buffer holds at most one record, of another position (the buffers that \<open>get_match\<close>
  builds), the next \<open>get_next_data\<close> returns exactly the records put back, reversed, and
  leaves the stream as it was before \<open>put_back\<close>.
\<close>

theorem put_back_then_next:
  "future (put_back ms s) = rev ms @ future s
   \<and> (ms = [] \<longrightarrow> put_back ms s = s)
   \<and> (ms \<noteq> [] \<and> (\<forall>m\<in>set ms. chr m = chr (hd ms) \<and> pos m = pos (hd ms))
        \<and> length (future s) \<le> 1
        \<and> (\<forall>v\<in>set (future s). \<not> (chr v = chr (hd ms) \<and> pos v = pos (hd ms)))
      \<longrightarrow> get_next_data just_one (put_back ms s) = (Some (rev ms), s))"
proof (intro conjI impI)
  show f: "future (put_back ms s) = rev ms @ future s" by (rule put_back_future)
  show "put_back ms s = s" if "ms = []"
    unfolding that by (simp add: put_back_def)
  show "get_next_data just_one (put_back ms s) = (Some (rev ms), s)"
    if h: "ms \<noteq> [] \<and> (\<forall>m\<in>set ms. chr m = chr (hd ms) \<and> pos m = pos (hd ms))
        \<and> length (future s) \<le> 1
        \<and> (\<forall>v\<in>set (future s). \<not> (chr v = chr (hd ms) \<and> pos v = pos (hd ms)))"
  proof -
    from h have h1: "ms \<noteq> []"
      and h2: "\<forall>m\<in>set ms. chr m = chr (hd ms) \<and> pos m = pos (hd ms)"
      and h3: "length (future s) \<le> 1"
      and h4: "\<forall>v\<in>set (future s). \<not> (chr v = chr (hd ms) \<and> pos v = pos (hd ms))"
      by blast+
    have 1: "rev ms \<noteq> []" using h1 by simp
    have 2: "\<forall>m\<in>set (rev ms). chr m = chr (hd ms) \<and> pos m = pos (hd ms)"
      unfolding set_rev by (rule h2)
    have "get_next_data just_one (put_back ms s)
        = (Some (rev ms), (put_back ms s)\<lparr>future := future s\<rparr>)"
      by (rule get_next_data_group [OF f 1 2 h3 h4])
    moreover have "(put_back ms s)\<lparr>future := future s\<rparr> = s" by (simp add: put_back_def)
    ultimately show ?thesis by simp
  qed
qed

theorem put_back_then_next_witness:
  "future (put_back [MetaDat_init 1 100 ''A'' ''G'' (Some 1) (Some (1/2)) None [],
                     MetaDat_init 1 100 ''A'' ''C'' (Some 1) (Some (1/2)) None []]
             ((Study_init 1 1 [])\<lparr>future := [MetaDat_init 1 200 ''A'' ''G'' (Some 1) (Some (1/2)) None []]\<rparr>))
     = [MetaDat_init 1 100 ''A'' ''C'' (Some 1) (Some (1/2)) None [],
        MetaDat_init 1 100 ''A'' ''G'' (Some 1) (Some (1/2)) None [],
        MetaDat_init 1 200 ''A'' ''G'' (Some 1) (Some (1/2)) None []]
   \<and> get_next_data False
        (put_back [MetaDat_init 1 100 ''A'' ''G'' (Some 1) (Some (1/2)) None [],
                   MetaDat_init 1 100 ''A'' ''C'' (Some 1) (Some (1/2)) None []]
           ((Study_init 1 1 [])\<lparr>future := [MetaDat_init 1 200 ''A'' ''G'' (Some 1) (Some (1/2)) None []]\<rparr>))
     = (Some [MetaDat_init 1 100 ''A'' ''C'' (Some 1) (Some (1/2)) None [],
              MetaDat_init 1 100 ''A'' ''G'' (Some 1) (Some (1/2)) None []],
        (Study_init 1 1 [])\<lparr>future := [MetaDat_init 1 200 ''A'' ''G'' (Some 1) (Some (1/2)) None []]\<rparr>)
   \<and> put_back [] ((Study_init 1 1 [])\<lparr>future := [MetaDat_init 1 200 ''A'' ''G'' (Some 1) (Some (1/2)) None []]\<rparr>)
     = (Study_init 1 1 [])\<lparr>future := [MetaDat_init 1 200 ''A'' ''G'' (Some 1) (Some (1/2)) None []]\<rparr>"
proof -
  let ?a = "MetaDat_init 1 100 ''A'' ''G'' (Some 1) (Some (1/2)) None []"
  let ?b = "MetaDat_init 1 100 ''A'' ''C'' (Some 1) (Some (1/2)) None []"
  let ?c = "MetaDat_init 1 200 ''A'' ''G'' (Some 1) (Some (1/2)) None []"
  let ?s = "(Study_init 1 1 [])\<lparr>future := [?c]\<rparr>"
  note t = put_back_then_next [of "[?a, ?b]" ?s False]
  note e = put_back_then_next [of "[]" ?s False]
  have h1: "[?a, ?b] \<noteq> []" by simp
  have h2: "\<forall>m\<in>set [?a, ?b]. chr m = chr (hd [?a, ?b]) \<and> pos m = pos (hd [?a, ?b])"
    by (simp add: MetaDat_init_def)
  have h3: "length (future ?s) \<le> 1" by simp
  have h4: "\<forall>v\<in>set (future ?s). \<not> (chr v = chr (hd [?a, ?b]) \<and> pos v = pos (hd [?a, ?b]))"
    by (simp add: MetaDat_init_def)
  have f: "future (put_back [?a, ?b] ?s) = rev [?a, ?b] @ future ?s" using t by blast
  have g: "get_next_data False (put_back [?a, ?b] ?s) = (Some (rev [?a, ?b]), ?s)"
    using t h1 h2 h3 h4 by blast
  have n: "put_back [] ?s = ?s" using e by blast
  from f g n show ?thesis by simp
qed

section \<open>Conservation of records by \<open>get_match\<close>\<close>

subsection \<open>The reading loop and \<open>get_next_data\<close>\<close>

lemma records_of_append: "records_of (xs @ ys) = records_of xs @ records_of ys"
  by (induction xs) (auto split: option.splits)

lemma read_rows_None:
  "read_rows just_one vars fut ls = (None, fut', ls') \<Longrightarrow> fut' = fut \<and> ls' = []"
proof (induction ls arbitrary: vars)
  case Nil
  then show ?case by simp
next
  case (Cons l ls)
  show ?case
  proof (cases "chrord (row_chr l)")
    case None
    with Cons.prems have "read_rows just_one vars fut ls = (None, fut', ls')" by simp
    then show ?thesis by (rule Cons.IH)
  next
    case (Some c)
    let ?v = "make_dat c l"
    show ?thesis
    proof (cases "case vars of [] \<Rightarrow> True | v0 # _ \<Rightarrow> chr v0 = chr ?v \<and> pos v0 = pos ?v")
      case True
      show ?thesis
      proof (cases just_one)
        case True
        with Cons.prems Some \<open>case vars of [] \<Rightarrow> True | v0 # _ \<Rightarrow> chr v0 = chr ?v \<and> pos v0 = pos ?v\<close>
        show ?thesis by simp
      next
        case False
        with Cons.prems Some True
        have "read_rows just_one (vars @ [?v]) fut ls = (None, fut', ls')" by simp
        then show ?thesis by (rule Cons.IH)
      qed
    next
      case False
      with Cons.prems Some show ?thesis by simp
    qed
  qed
qed

lemma poskey_eq: "(chr a = chr b \<and> pos a = pos b) = (poskey a = poskey b)"
  by (simp add: poskey_def)

lemma read_rows_conserves:
  assumes "read_rows False vars fut ls = (Some b, fut', ls')"
    and "\<forall>x\<in>set vars. \<forall>y\<in>set vars. poskey x = poskey y"
  shows "\<exists>consumed v. ls = consumed @ ls' \<and> fut' = fut @ [v]
     \<and> vars @ records_of consumed = b @ [v] \<and> b \<noteq> []
     \<and> (\<forall>x\<in>set b. \<forall>y\<in>set b. poskey x = poskey y)
     \<and> (\<forall>x\<in>set b. poskey v \<noteq> poskey x)"
  using assms
proof (induction ls arbitrary: vars)
  case Nil
  then show ?case by simp
next
  case (Cons l ls)
  show ?case
  proof (cases "chrord (row_chr l)")
    case None
    with Cons.prems(1) have "read_rows False vars fut ls = (Some b, fut', ls')" by simp
    from Cons.IH [OF this Cons.prems(2)] obtain consumed v where
      c: "ls = consumed @ ls'" "fut' = fut @ [v]" "vars @ records_of consumed = b @ [v]" "b \<noteq> []"
      "\<forall>x\<in>set b. \<forall>y\<in>set b. poskey x = poskey y"
      "\<forall>x\<in>set b. poskey v \<noteq> poskey x" by blast
    have ro: "records_of (l # consumed) = records_of consumed" using None by simp
    have "l # ls = (l # consumed) @ ls'" using c(1) by simp
    moreover have "vars @ records_of (l # consumed) = b @ [v]" unfolding ro by (rule c(3))
    ultimately show ?thesis using c(2,4,5,6) by blast
  next
    case (Some c)
    let ?w = "make_dat c l"
    have ro: "records_of (l # xs) = ?w # records_of xs" for xs using Some by simp
    show ?thesis
    proof (cases "case vars of [] \<Rightarrow> True | v0 # _ \<Rightarrow> chr v0 = chr ?w \<and> pos v0 = pos ?w")
      case True
      with Cons.prems(1) Some
      have r: "read_rows False (vars @ [?w]) fut ls = (Some b, fut', ls')"
        by simp
      have all_w: "\<forall>x\<in>set vars. poskey x = poskey ?w"
      proof (cases vars)
        case Nil
        then show ?thesis by simp
      next
        case (Cons v0 vs)
        with True have "poskey v0 = poskey ?w" by (simp add: poskey_def)
        moreover have "v0 \<in> set vars" using Cons by simp
        ultimately show ?thesis using Cons.prems(2) by metis
      qed
      have h: "\<forall>x\<in>set (vars @ [?w]). \<forall>y\<in>set (vars @ [?w]). poskey x = poskey y"
      proof (intro ballI)
        fix x y assume "x \<in> set (vars @ [?w])" and "y \<in> set (vars @ [?w])"
        then have "poskey x = poskey ?w" and "poskey y = poskey ?w" using all_w by auto
        then show "poskey x = poskey y" by (rule trans [OF _ sym])
      qed
      from Cons.IH [OF r h] obtain consumed v where
        c: "ls = consumed @ ls'" "fut' = fut @ [v]" "(vars @ [?w]) @ records_of consumed = b @ [v]"
        "b \<noteq> []" "\<forall>x\<in>set b. \<forall>y\<in>set b. poskey x = poskey y"
        "\<forall>x\<in>set b. poskey v \<noteq> poskey x" by blast
      have "l # ls = (l # consumed) @ ls'" using c(1) by simp
      moreover have "vars @ records_of (l # consumed) = b @ [v]"
        using c(3) by (simp only: ro append_assoc append_Cons append_Nil)
      ultimately show ?thesis using c(2,4,5,6) by blast
    next
      case False
      then obtain v0 vs where vars: "vars = v0 # vs" and ne: "poskey v0 \<noteq> poskey ?w"
        by (cases vars) (simp_all add: poskey_def)
      from Cons.prems(1) Some False have res: "b = vars" "fut' = fut @ [?w]" "ls' = ls"
        by simp_all
      have v0: "v0 \<in> set vars" using vars by simp
      have "l # ls = [l] @ ls'" using res(3) by simp
      moreover have "vars @ records_of [l] = b @ [?w]" unfolding res(1) using ro [of "[]"] by simp
      moreover have "b \<noteq> []" unfolding res(1) vars by simp
      moreover have "\<forall>x\<in>set b. \<forall>y\<in>set b. poskey x = poskey y"
        unfolding res(1) by (rule Cons.prems(2))
      moreover have "\<forall>x\<in>set b. poskey ?w \<noteq> poskey x"
        unfolding res(1) using ne v0 Cons.prems(2) by metis
      ultimately show ?thesis using res(2) by blast
    qed
  qed
qed

lemma buffer_ok_group:
  assumes "\<forall>x\<in>set grp. \<forall>y\<in>set grp. poskey x = poskey y" and "length rest \<le> 1"
  shows "buffer_ok (grp @ rest)"
proof (cases grp)
  case Nil
  show ?thesis
  proof (cases rest)
    case Nil
    with \<open>grp = []\<close> show ?thesis by (simp add: buffer_ok_def)
  next
    case (Cons v vs)
    with assms(2) have "vs = []" by simp
    with Cons \<open>grp = []\<close> show ?thesis by (simp add: buffer_ok_def)
  qed
next
  case (Cons a as)
  let ?P = "\<lambda>v. chr v = chr a \<and> pos v = pos a"
  have "a \<in> set grp" using Cons by simp
  with assms(1) have "\<forall>x\<in>set grp. poskey x = poskey a" by blast
  then have "\<And>x. x \<in> set grp \<Longrightarrow> ?P x" using poskey_eq by blast
  then have "dropWhile ?P (grp @ rest) = dropWhile ?P rest" by (rule dropWhile_append2)
  moreover have "length (dropWhile ?P rest) \<le> length rest" by (rule length_dropWhile_le)
  ultimately have "length (dropWhile ?P (grp @ rest)) \<le> 1" using assms(2) by simp
  then show ?thesis unfolding buffer_ok_def Cons by simp
qed

lemma buffer_ok_split:
  assumes "buffer_ok fut" and "fut \<noteq> []"
  shows "\<exists>grp rest c p. fut = grp @ rest \<and> grp \<noteq> []
     \<and> (\<forall>m\<in>set grp. chr m = c \<and> pos m = p)
     \<and> length rest \<le> 1 \<and> (\<forall>v\<in>set rest. \<not> (chr v = c \<and> pos v = p))"
proof -
  from assms(2) obtain a as where fut: "fut = a # as" by (cases fut) auto
  let ?P = "\<lambda>v. chr v = chr a \<and> pos v = pos a"
  let ?grp = "takeWhile ?P fut" and ?rest = "dropWhile ?P fut"
  have 1: "fut = ?grp @ ?rest" by simp
  have 2: "?grp \<noteq> []" unfolding fut by simp
  have 3: "\<forall>m\<in>set ?grp. chr m = chr a \<and> pos m = pos a"
    using set_takeWhileD [of _ ?P fut] by blast
  have 4: "length ?rest \<le> 1" using assms(1) unfolding buffer_ok_def fut by simp
  have 5: "\<forall>v\<in>set ?rest. \<not> (chr v = chr a \<and> pos v = pos a)"
  proof (cases ?rest)
    case Nil
    show ?thesis unfolding Nil by simp
  next
    case (Cons v vs)
    with 4 have vs: "vs = []" by simp
    have "?rest \<noteq> []" using Cons by simp
    then have "\<not> ?P (hd ?rest)" by (rule hd_dropWhile)
    then have "\<not> ?P v" unfolding Cons by simp
    then show ?thesis unfolding Cons vs by simp
  qed
  show ?thesis
    apply (rule exI [of _ ?grp], rule exI [of _ ?rest])
    apply (rule exI [of _ "chr a"], rule exI [of _ "pos a"])
    using 1 2 3 4 5 by (intro conjI)
qed

lemma batch_ok_buffer_ok: "batch_ok b fut \<Longrightarrow> buffer_ok fut"
  using buffer_ok_group [of "[]" fut] by (simp add: batch_ok_def)

lemma get_next_data_conserves:
  assumes "buffer_ok (future s)" and "get_next_data False s = (Some b, s')"
  shows "\<exists>consumed. fpoint s = consumed @ fpoint s'
     \<and> mset (future s) + mset (records_of consumed) = mset b + mset (future s')
     \<and> batch_ok b (future s')"
proof (cases "future s = []")
  case True
  with assms(2) obtain fut ls where r: "read_rows False [] [] (fpoint s) = (Some b, fut, ls)"
    and s': "s' = s\<lparr>future := fut, fpoint := ls\<rparr>"
    by (auto simp: get_next_data_def split: prod.splits)
  have "\<forall>x\<in>set ([]::MetaDat list). \<forall>y\<in>set []. poskey x = poskey y" by simp
  from read_rows_conserves [OF r this] obtain consumed v where
    c: "fpoint s = consumed @ ls" "fut = [] @ [v]" "[] @ records_of consumed = b @ [v]" "b \<noteq> []"
      "\<forall>x\<in>set b. \<forall>y\<in>set b. poskey x = poskey y"
      "\<forall>x\<in>set b. poskey v \<noteq> poskey x" by blast
  have fs': "future s' = [v]" "fpoint s' = ls" using c(2) by (simp_all add: s')
  have "mset (records_of consumed) = mset b + mset [v]" using c(3) by (simp only: append_Nil mset_append)
  then have m: "mset (future s) + mset (records_of consumed) = mset b + mset (future s')"
    unfolding fs' True by simp
  have "length [v] \<le> (1::nat)" by simp
  moreover have "\<forall>u\<in>set [v]. \<forall>x\<in>set b. poskey u \<noteq> poskey x" using c(6) by simp
  ultimately have ok: "batch_ok b (future s')" unfolding batch_ok_def fs' using c(4) c(5) by blast
  show ?thesis unfolding fs'(2) using c(1) m ok by blast
next
  case False
  from buffer_ok_split [OF assms(1) False] obtain grp rest c p where
    g: "future s = grp @ rest" "grp \<noteq> []"
      "\<forall>m\<in>set grp. chr m = c \<and> pos m = p"
      "length rest \<le> 1"
      "\<forall>v\<in>set rest. \<not> (chr v = c \<and> pos v = p)"
    by blast
  from get_next_data_group [OF g] assms(2) have res: "b = grp" "s' = s\<lparr>future := rest\<rparr>" by simp_all
  have fs': "future s' = rest" "fpoint s' = fpoint s" by (simp_all add: res(2))
  have k: "\<forall>m\<in>set grp. poskey m = (c, p)" using g(3) by (simp add: poskey_def)
  have k': "\<forall>v\<in>set rest. poskey v \<noteq> (c, p)" using g(5) by (simp add: poskey_def)
  have ok: "batch_ok b (future s')"
    unfolding batch_ok_def fs' res(1) using g(2,4) k k' by (metis)
  have m: "mset (future s) + mset (records_of []) = mset b + mset (future s')"
    unfolding fs' res(1) g(1) by simp
  have "fpoint s = [] @ fpoint s'" unfolding fs' by simp
  with m ok show ?thesis by blast
qed

lemma get_next_data_None:
  assumes "get_next_data False s = (None, s')"
  shows "future s' = [] \<and> fpoint s' = []"
proof (cases "future s = []")
  case True
  with assms obtain fut ls where r: "read_rows False [] [] (fpoint s) = (None, fut, ls)"
    and s': "s' = s\<lparr>future := fut, fpoint := ls\<rparr>"
    by (auto simp: get_next_data_def split: prod.splits)
  from read_rows_None [OF r] s' show ?thesis by simp
next
  case False
  with assms show ?thesis by (simp add: get_next_data_def Let_def)
qed

subsection \<open>The scan for a match\<close>

lemma equalize_falsy_unchanged:
  assumes "equalize v dat = Inr (r, v')" and "\<not> truthy r"
  shows "v' = v"
proof (cases "chr v = chr dat \<and> pos v = pos dat")
  case False
  have "equalize v dat = Inr (None, v)" by (simp only: equalize_def False if_False)
  with assms(1) show ?thesis by simp
next
  case True
  show ?thesis
  proof (cases "flip_strand (ref dat)")
    case (Inl e)
    with True assms(1) show ?thesis by (simp add: equalize_def)
  next
    case f1: (Inr f1)
    show ?thesis
    proof (cases "flip_strand (alt dat)")
      case (Inl e)
      with True f1 assms(1) show ?thesis by (simp add: equalize_def)
    next
      case f2: (Inr f2)
      from assms True f1 f2 show ?thesis
        by (simp add: equalize_def truthy_def split: if_splits)
    qed
  qed
qed

lemma equalize_truthy:
  assumes "equalize v dat = Inr (r, v')" and "truthy r"
  shows "equalize v dat = Inr (Some True, v')"
  using assms by (simp add: truthy_def)

lemma find_match_result:
  assumes "find_match dat seen vs = Inr (m, rest)"
  shows "(m = None \<and> rest = seen @ vs)
     \<or> (\<exists>v v' pre post. m = Some v' \<and> vs = pre @ v # post \<and> rest = seen @ pre @ post
          \<and> equalize v dat = Inr (Some True, v'))"
  using assms
proof (induction vs arbitrary: seen)
  case Nil
  then show ?case by simp
next
  case (Cons x vs)
  show ?case
  proof (cases "equalize x dat")
    case (Inl e)
    with Cons.prems show ?thesis by simp
  next
    case (Inr p)
    obtain r x' where p: "p = (r, x')" by (cases p)
    note eq = Inr [unfolded p]
    show ?thesis
    proof (cases "truthy r")
      case True
      with Cons.prems eq have res: "m = Some x'" "rest = seen @ vs" by simp_all
      have "equalize x dat = Inr (Some True, x')" using eq True by (rule equalize_truthy)
      then have "m = Some x' \<and> x # vs = [] @ x # vs \<and> rest = seen @ [] @ vs
          \<and> equalize x dat = Inr (Some True, x')" using res by simp
      then show ?thesis by blast
    next
      case False
      from equalize_falsy_unchanged [OF eq False] have x': "x' = x" .
      from Cons.prems eq False have "find_match dat (seen @ [x]) vs = Inr (m, rest)"
        by (simp add: x')
      from Cons.IH [OF this] show ?thesis
      proof
        assume "m = None \<and> rest = (seen @ [x]) @ vs"
        then show ?thesis by simp
      next
        assume "\<exists>v v' pre post. m = Some v' \<and> vs = pre @ v # post
            \<and> rest = (seen @ [x]) @ pre @ post \<and> equalize v dat = Inr (Some True, v')"
        then obtain v v' pre post where h: "m = Some v'" "vs = pre @ v # post"
          "rest = (seen @ [x]) @ pre @ post" "equalize v dat = Inr (Some True, v')" by blast
        have "m = Some v' \<and> x # vs = (x # pre) @ v # post \<and> rest = seen @ (x # pre) @ post
            \<and> equalize v dat = Inr (Some True, v')" using h by simp
        then show ?thesis by blast
      qed
    qed
  qed
qed

lemma find_match_conserves:
  assumes "find_match dat [] b = Inr (m, rest)"
  shows "set rest \<subseteq> set b
     \<and> (case m of None \<Rightarrow> mset b = mset rest
         | Some v' \<Rightarrow> \<exists>v. equalize v dat = Inr (Some True, v') \<and> mset b = {#v#} + mset rest)"
proof -
  from find_match_result [OF assms] show ?thesis
  proof
    assume "m = None \<and> rest = [] @ b"
    then show ?thesis by simp
  next
    assume "\<exists>v v' pre post. m = Some v' \<and> b = pre @ v # post \<and> rest = [] @ pre @ post
        \<and> equalize v dat = Inr (Some True, v')"
    then obtain v v' pre post where h: "m = Some v'" "b = pre @ v # post"
      "rest = [] @ pre @ post" "equalize v dat = Inr (Some True, v')" by blast
    have 1: "set rest \<subseteq> set b" unfolding h(2,3) by auto
    have 2: "mset b = {#v#} + mset rest" unfolding h(2,3) by simp
    from 1 2 h(1,4) show ?thesis by auto
  qed
qed

subsection \<open>The loop over earlier batches\<close>

lemma before_poskey: "poskey x = poskey d \<Longrightarrow> before x dat = before d dat"
  by (simp add: before_def poskey_def)

lemma skip_before_conserves:
  assumes "skip_before dat p = Inr (od', s')" and "batch_pre (fst p) (future (snd p))"
    and "fpoint s' \<noteq> []"
  shows "\<exists>consumed dropped. fpoint (snd p) = consumed @ fpoint s'
     \<and> (\<forall>d\<in>set dropped. before d dat)
     \<and> mset (batch_list (fst p)) + mset (future (snd p)) + mset (records_of consumed)
         = mset dropped + mset (batch_list od') + mset (future s')
     \<and> batch_pre od' (future s')
     \<and> (\<forall>d\<in>set (batch_list od'). \<not> before d dat)"
  using assms
proof (induction dat p rule: skip_before.induct)
  case (1 dat s)
  then have "od' = None" "s' = s" by simp_all
  then have "fpoint (snd (None, s)) = [] @ fpoint s'
     \<and> (\<forall>d\<in>set []. before d dat)
     \<and> mset (batch_list (fst (None, s))) + mset (future (snd (None, s))) + mset (records_of [])
         = mset [] + mset (batch_list od') + mset (future s')
     \<and> batch_pre od' (future s')
     \<and> (\<forall>d\<in>set (batch_list od'). \<not> before d dat)"
    by (simp add: batch_pre_def)
  then show ?case by blast
next
  case (2 dat s)
  then show ?case by simp
next
  case (3 dat d ds s)
  let ?b = "d # ds"
  from "3.prems"(2) have ok: "batch_ok ?b (future s)" by (simp add: batch_pre_def)
  then have same: "\<forall>x\<in>set ?b. poskey x = poskey d"
    unfolding batch_ok_def by (metis list.set_intros(1))
  show ?case
  proof (cases "before d dat")
    case False
    with "3.prems"(1) have res: "od' = Some ?b" "s' = s" by simp_all
    have nb: "\<forall>x\<in>set ?b. \<not> before x dat"
      using same False before_poskey by blast
    have "fpoint (snd (Some ?b, s)) = [] @ fpoint s'
       \<and> (\<forall>d\<in>set []. before d dat)
       \<and> mset (batch_list (fst (Some ?b, s))) + mset (future (snd (Some ?b, s)))
             + mset (records_of [])
           = mset [] + mset (batch_list od') + mset (future s')
       \<and> batch_pre od' (future s')
       \<and> (\<forall>d\<in>set (batch_list od'). \<not> before d dat)"
      unfolding res using ok nb by (simp add: batch_pre_def)
    then show ?thesis by blast
  next
    case True
    have allb: "\<forall>x\<in>set ?b. before x dat"
      using same True before_poskey by blast
    obtain od1 s1 where g: "get_next_data False s = (od1, s1)"
      by (cases "get_next_data False s")
    from "3.prems"(1) True g have sk: "skip_before dat (od1, s1) = Inr (od', s')" by simp
    show ?thesis
    proof (cases od1)
      case None
      with sk have "s' = s1" by simp
      moreover from get_next_data_None [OF g [unfolded None]] have "fpoint s1 = []" by simp
      ultimately show ?thesis using "3.prems"(3) by simp
    next
      case (Some b1)
      note g1 = g [unfolded Some]
      from get_next_data_conserves [OF batch_ok_buffer_ok [OF ok] g1] obtain consumed1 where
        c1: "fpoint s = consumed1 @ fpoint s1"
          "mset (future s) + mset (records_of consumed1) = mset b1 + mset (future s1)"
          "batch_ok b1 (future s1)" by blast
      have pre1: "batch_pre (fst (od1, s1)) (future (snd (od1, s1)))"
        using c1(3) by (simp add: batch_pre_def Some)
      have sk': "skip_before dat (get_next_data False s) = Inr (od', s')"
        unfolding g by (rule sk)
      have pre1': "batch_pre (fst (get_next_data False s)) (future (snd (get_next_data False s)))"
        unfolding g by (rule pre1)
      from "3.IH" [OF True sk' pre1' "3.prems"(3)] obtain consumed2 dropped2 where
        c2: "fpoint s1 = consumed2 @ fpoint s'"
          "\<forall>d\<in>set dropped2. before d dat"
          "mset b1 + mset (future s1) + mset (records_of consumed2)
            = mset dropped2 + mset (batch_list od') + mset (future s')"
          "batch_pre od' (future s')"
          "\<forall>d\<in>set (batch_list od'). \<not> before d dat"
        unfolding g Some by auto
      have a: "fpoint s = (consumed1 @ consumed2) @ fpoint s'" using c1(1) c2(1) by simp
      have b: "\<forall>x\<in>set (?b @ dropped2). before x dat" using allb c2(2) by auto
      have "mset ?b + mset (future s) + mset (records_of (consumed1 @ consumed2))
          = mset ?b + (mset (future s) + mset (records_of consumed1)) + mset (records_of consumed2)"
        by (simp add: records_of_append)
      also have "\<dots> = mset ?b + (mset b1 + mset (future s1) + mset (records_of consumed2))"
        unfolding c1(2) by (simp add: ac_simps)
      also have "\<dots> = mset (?b @ dropped2) + mset (batch_list od') + mset (future s')"
        unfolding c2(3) by (simp add: ac_simps)
      finally have m: "mset ?b + mset (future s) + mset (records_of (consumed1 @ consumed2))
          = mset (?b @ dropped2) + mset (batch_list od') + mset (future s')" .
      have "fpoint (snd (Some ?b, s)) = (consumed1 @ consumed2) @ fpoint s'
         \<and> (\<forall>d\<in>set (?b @ dropped2). before d dat)
         \<and> mset (batch_list (fst (Some ?b, s))) + mset (future (snd (Some ?b, s)))
               + mset (records_of (consumed1 @ consumed2))
             = mset (?b @ dropped2) + mset (batch_list od') + mset (future s')
         \<and> batch_pre od' (future s')
         \<and> (\<forall>d\<in>set (batch_list od'). \<not> before d dat)"
        using a b m c2(4,5) by simp
      then show ?thesis by blast
    qed
  qed
qed

lemma skip_before_None:
  assumes "skip_before dat p = Inr (None, s')" and "fst p \<noteq> None"
  shows "future s' = [] \<and> fpoint s' = []"
  using assms
proof (induction dat p rule: skip_before.induct)
  case (1 dat s)
  then show ?case by simp
next
  case (2 dat s)
  then show ?case by simp
next
  case (3 dat d ds s)
  show ?case
  proof (cases "before d dat")
    case False
    with "3.prems"(1) show ?thesis by simp
  next
    case True
    obtain od1 s1 where g: "get_next_data False s = (od1, s1)"
      by (cases "get_next_data False s")
    from "3.prems"(1) True g have sk: "skip_before dat (od1, s1) = Inr (None, s')" by simp
    show ?thesis
    proof (cases od1)
      case None
      with sk have "s' = s1" by simp
      with get_next_data_None [OF g [unfolded None]] show ?thesis by simp
    next
      case (Some b1)
      have sk': "skip_before dat (get_next_data False s) = Inr (None, s')"
        unfolding g by (rule sk)
      have "fst (get_next_data False s) \<noteq> None" unfolding g Some by simp
      from "3.IH" [OF True sk' this] show ?thesis .
    qed
  qed
qed

subsection \<open>One call\<close>

text \<open>
  One call of \<open>get_match\<close> that does not reach the end of the file: the records taken
  from the buffer and built from the lines read are, counted with multiplicity, the
  records dropped (all before the target), the record returned if any, and the buffer
  afterwards, which has the shape it had.
\<close>

lemma put_back_fpoint: "fpoint (put_back ms s) = fpoint s"
  by (simp add: put_back_def)

lemma batch_ok_put_back:
  assumes "batch_ok b fut" and "set rest \<subseteq> set b"
  shows "buffer_ok (rev rest @ fut)"
proof -
  have "\<forall>x\<in>set (rev rest). \<forall>y\<in>set (rev rest). poskey x = poskey y"
    using assms unfolding batch_ok_def set_rev by blast
  moreover have "length fut \<le> 1" using assms(1) unfolding batch_ok_def by blast
  ultimately show ?thesis by (rule buffer_ok_group)
qed

lemma get_match_conserves:
  assumes "buffer_ok (future s)" and "get_match dat s = Inr (m, s')" and "fpoint s' \<noteq> []"
  shows "\<exists>consumed dropped. fpoint s = consumed @ fpoint s'
     \<and> (\<forall>d\<in>set dropped. before d dat)
     \<and> (case m of
          None \<Rightarrow> mset (future s) + mset (records_of consumed) = mset dropped + mset (future s')
        | Some v' \<Rightarrow> \<exists>v. equalize v dat = Inr (Some True, v')
            \<and> mset (future s) + mset (records_of consumed)
                = mset dropped + {#v#} + mset (future s'))
     \<and> buffer_ok (future s')"
proof -
  obtain od1 s1 where g: "get_next_data False s = (od1, s1)"
    by (cases "get_next_data False s")
  show ?thesis
  proof (cases od1)
    case None
    with assms(2) g have "s' = s1" by (simp add: get_match_def)
    moreover from get_next_data_None [OF g [unfolded None]] have "fpoint s1 = []" by simp
    ultimately show ?thesis using assms(3) by simp
  next
    case (Some b1)
    note g1 = g [unfolded Some]
    from get_next_data_conserves [OF assms(1) g1] obtain consumed1 where
      c1: "fpoint s = consumed1 @ fpoint s1"
        "mset (future s) + mset (records_of consumed1) = mset b1 + mset (future s1)"
        "batch_ok b1 (future s1)" by blast
    have ne: "b1 \<noteq> []" using c1(3) unfolding batch_ok_def by blast
    obtain r where sk0: "skip_before dat (Some b1, s1) = r" by blast
    from assms(2) g1 ne sk0 have gm: "(case r of
               Inl e \<Rightarrow> Inl e
             | Inr (None, s2) \<Rightarrow> Inr (None, s2)
             | Inr (Some [], s2) \<Rightarrow> Inl IndexError
             | Inr (Some (d # ds), s2) \<Rightarrow>
                 if chr d > chr dat \<or> pos d > pos dat then Inr (None, put_back (d # ds) s2)
                 else
                   (case find_match dat [] (d # ds) of
                      Inl e \<Rightarrow> Inl e
                    | Inr (m, rest) \<Rightarrow> Inr (m, put_back rest s2))) = Inr (m, s')"
      by (simp add: get_match_def)
    then obtain od2 s2 where r: "r = Inr (od2, s2)" by (cases r) auto
    note sk = sk0 [unfolded r]
    have rest_of: "\<exists>rest. s' = put_back rest s2 \<and> set rest \<subseteq> set (batch_list od2)
        \<and> (case m of None \<Rightarrow> mset (batch_list od2) = mset rest
            | Some v' \<Rightarrow> \<exists>v. equalize v dat = Inr (Some True, v')
                \<and> mset (batch_list od2) = {#v#} + mset rest)"
    proof (cases od2)
      case None
      with gm r have "m = None" "s' = s2" by simp_all
      then have "s' = put_back [] s2 \<and> set [] \<subseteq> set (batch_list od2)
        \<and> (case m of None \<Rightarrow> mset (batch_list od2) = mset []
            | Some v' \<Rightarrow> \<exists>v. equalize v dat = Inr (Some True, v')
                \<and> mset (batch_list od2) = {#v#} + mset [])"
        by (simp add: None put_back_def)
      then show ?thesis by blast
    next
      case (Some b2)
      show ?thesis
      proof (cases b2)
        case Nil
        with gm r Some show ?thesis by simp
      next
        case (Cons d ds)
        show ?thesis
        proof (cases "chr d > chr dat \<or> pos d > pos dat")
          case True
          with gm r Some Cons have "m = None" "s' = put_back b2 s2" by simp_all
          then have "s' = put_back b2 s2 \<and> set b2 \<subseteq> set (batch_list od2)
            \<and> (case m of None \<Rightarrow> mset (batch_list od2) = mset b2
                | Some v' \<Rightarrow> \<exists>v. equalize v dat = Inr (Some True, v')
                    \<and> mset (batch_list od2) = {#v#} + mset b2)"
            by (simp add: Some)
          then show ?thesis by blast
        next
          case False
          with gm r Some Cons have fm: "(case find_match dat [] b2 of
                      Inl e \<Rightarrow> Inl e
                    | Inr (m, rest) \<Rightarrow> Inr (m, put_back rest s2)) = Inr (m, s')"
            by simp
          then obtain rest where f: "find_match dat [] b2 = Inr (m, rest)"
            and s': "s' = put_back rest s2"
            by (cases "find_match dat [] b2") auto
          from find_match_conserves [OF f] s' have "s' = put_back rest s2
            \<and> set rest \<subseteq> set (batch_list od2)
            \<and> (case m of None \<Rightarrow> mset (batch_list od2) = mset rest
                | Some v' \<Rightarrow> \<exists>v. equalize v dat = Inr (Some True, v')
                    \<and> mset (batch_list od2) = {#v#} + mset rest)"
            unfolding Some batch_list.simps by simp
          then show ?thesis by blast
        qed
      qed
    qed
    then obtain rest where s': "s' = put_back rest s2"
      and sub: "set rest \<subseteq> set (batch_list od2)"
      and mm: "case m of None \<Rightarrow> mset (batch_list od2) = mset rest
            | Some v' \<Rightarrow> \<exists>v. equalize v dat = Inr (Some True, v')
                \<and> mset (batch_list od2) = {#v#} + mset rest" by blast
    have fp: "fpoint s2 \<noteq> []" using assms(3) unfolding s' put_back_fpoint .
    have pre: "batch_pre (fst (Some b1, s1)) (future (snd (Some b1, s1)))"
      using c1(3) by (simp add: batch_pre_def)
    from skip_before_conserves [OF sk pre fp] obtain consumed2 dropped where
      c2: "fpoint s1 = consumed2 @ fpoint s2"
        "\<forall>d\<in>set dropped. before d dat"
        "mset b1 + mset (future s1) + mset (records_of consumed2)
          = mset dropped + mset (batch_list od2) + mset (future s2)"
        "batch_pre od2 (future s2)"
      by auto
    have fut': "future s' = rev rest @ future s2" unfolding s' by (rule put_back_future)
    have a: "fpoint s = (consumed1 @ consumed2) @ fpoint s'"
      unfolding s' put_back_fpoint using c1(1) c2(1) by simp
    have "mset (future s) + mset (records_of (consumed1 @ consumed2))
        = (mset (future s) + mset (records_of consumed1)) + mset (records_of consumed2)"
      by (simp add: records_of_append)
    also have "\<dots> = mset b1 + mset (future s1) + mset (records_of consumed2)"
      unfolding c1(2) ..
    also have "\<dots> = mset dropped + mset (batch_list od2) + mset (future s2)" by (rule c2(3))
    finally have total: "mset (future s) + mset (records_of (consumed1 @ consumed2))
        = mset dropped + mset (batch_list od2) + mset (future s2)" .
    have cons: "case m of
          None \<Rightarrow> mset (future s) + mset (records_of (consumed1 @ consumed2))
                    = mset dropped + mset (future s')
        | Some v' \<Rightarrow> \<exists>v. equalize v dat = Inr (Some True, v')
            \<and> mset (future s) + mset (records_of (consumed1 @ consumed2))
                = mset dropped + {#v#} + mset (future s')"
    proof (cases m)
      case None
      with mm have "mset (batch_list od2) = mset rest" by simp
      with total show ?thesis unfolding fut' None by (simp add: ac_simps)
    next
      case (Some v')
      with mm obtain v where v: "equalize v dat = Inr (Some True, v')"
        "mset (batch_list od2) = {#v#} + mset rest" by auto
      have "mset (future s) + mset (records_of (consumed1 @ consumed2))
                = mset dropped + {#v#} + mset (future s')"
        using total unfolding fut' v(2) by (simp add: ac_simps)
      with v(1) show ?thesis unfolding Some by auto
    qed
    have bo: "buffer_ok (future s')"
    proof (cases od2)
      case None
      with sub have "rest = []" by simp
      moreover have "buffer_ok (future s2)"
      proof -
        from sk None have "skip_before dat (Some b1, s1) = Inr (None, s2)" by simp
        from skip_before_None [OF this] have "future s2 = []" by simp
        then show ?thesis by (simp add: buffer_ok_def)
      qed
      ultimately show ?thesis unfolding fut' by simp
    next
      case (Some b2)
      with c2(4) have "batch_ok b2 (future s2)" by (simp add: batch_pre_def)
      moreover have "set rest \<subseteq> set b2" using sub Some by simp
      ultimately show ?thesis unfolding fut' by (rule batch_ok_put_back)
    qed
    from a c2(2) cons bo show ?thesis by blast
  qed
qed

subsection \<open>A sequence of calls\<close>

lemma read_rows_fpoint_empty: "read_rows just_one vars fut [] = (r, fut', ls') \<Longrightarrow> ls' = []"
  by simp

lemma get_next_data_fpoint_empty:
  assumes "get_next_data just_one s = (r, s')" and "fpoint s = []"
  shows "fpoint s' = []"
proof (cases "future s = []")
  case True
  with assms show ?thesis by (auto simp: get_next_data_def)
next
  case False
  with assms show ?thesis by (auto simp: get_next_data_def Let_def)
qed

lemma skip_before_fpoint_empty:
  assumes "skip_before dat p = Inr (od', s')" and "fpoint (snd p) = []"
  shows "fpoint s' = []"
  using assms
proof (induction dat p rule: skip_before.induct)
  case (1 dat s)
  then show ?case by simp
next
  case (2 dat s)
  then show ?case by simp
next
  case (3 dat d ds s)
  show ?case
  proof (cases "before d dat")
    case False
    with "3.prems" show ?thesis by simp
  next
    case True
    obtain od1 s1 where g: "get_next_data False s = (od1, s1)"
      by (cases "get_next_data False s")
    from "3.prems"(2) have "fpoint s = []" by simp
    from get_next_data_fpoint_empty [OF g this] have e: "fpoint (snd (get_next_data False s)) = []"
      unfolding g by simp
    from "3.prems"(1) True have "skip_before dat (get_next_data False s) = Inr (od', s')" by simp
    from "3.IH" [OF True this e] show ?thesis .
  qed
qed

lemma get_match_fpoint_empty:
  assumes "get_match dat s = Inr (m, s')" and "fpoint s = []"
  shows "fpoint s' = []"
proof -
  obtain od1 s1 where g: "get_next_data False s = (od1, s1)"
    by (cases "get_next_data False s")
  from get_next_data_fpoint_empty [OF g assms(2)] have e1: "fpoint s1 = []" .
  show ?thesis
  proof (cases "od1 = None \<or> od1 = Some []")
    case True
    with assms(1) g have "s' = s1" by (auto simp: get_match_def)
    with e1 show ?thesis by simp
  next
    case False
    obtain r where sk0: "skip_before dat (od1, s1) = r" by blast
    from assms(1) g False sk0 have gm: "(case r of
               Inl e \<Rightarrow> Inl e
             | Inr (None, s2) \<Rightarrow> Inr (None, s2)
             | Inr (Some [], s2) \<Rightarrow> Inl IndexError
             | Inr (Some (d # ds), s2) \<Rightarrow>
                 if chr d > chr dat \<or> pos d > pos dat then Inr (None, put_back (d # ds) s2)
                 else
                   (case find_match dat [] (d # ds) of
                      Inl e \<Rightarrow> Inl e
                    | Inr (m, rest) \<Rightarrow> Inr (m, put_back rest s2))) = Inr (m, s')"
      by (simp add: get_match_def)
    then obtain od2 s2 where r: "r = Inr (od2, s2)" by (cases r) auto
    have "fpoint (snd (od1, s1)) = []" using e1 by simp
    from skip_before_fpoint_empty [OF sk0 [unfolded r] this] have e2: "fpoint s2 = []" .
    have "\<exists>rest. s' = put_back rest s2"
    proof (cases od2)
      case None
      with gm r have "s' = put_back [] s2" by (simp add: put_back_def)
      then show ?thesis by blast
    next
      case (Some b2)
      show ?thesis
      proof (cases b2)
        case Nil
        with gm r Some show ?thesis by simp
      next
        case (Cons d ds)
        show ?thesis
        proof (cases "chr d > chr dat \<or> pos d > pos dat")
          case True
          with gm r Some Cons show ?thesis by auto
        next
          case False
          with gm r Some Cons have "(case find_match dat [] b2 of
                      Inl e \<Rightarrow> Inl e
                    | Inr (m, rest) \<Rightarrow> Inr (m, put_back rest s2)) = Inr (m, s')"
            by simp
          then show ?thesis by (cases "find_match dat [] b2") auto
        qed
      qed
    qed
    then show ?thesis using e2 by (auto simp: put_back_fpoint)
  qed
qed

lemma get_matches_fpoint_empty:
  "get_matches dats s = Inr (ms, s') \<Longrightarrow> fpoint s = [] \<Longrightarrow> fpoint s' = []"
proof (induction dats arbitrary: s ms)
  case Nil
  then show ?case by simp
next
  case (Cons dat dats)
  from Cons.prems(1) obtain m s1 where g: "get_match dat s = Inr (m, s1)"
    by (cases "get_match dat s") auto
  with Cons.prems(1) obtain ms1 where gs: "get_matches dats s1 = Inr (ms1, s')"
    by (cases "get_matches dats s1") auto
  from get_match_fpoint_empty [OF g Cons.prems(2)] have "fpoint s1 = []" .
  from Cons.IH [OF gs this] show ?case .
qed

text \<open>
  What \<open>get_match\<close> drops on purpose: a batch that sorts before the target. The stream
  holds records at positions 5 and 10; the call for a target at position 10 returns the
  second, and the first is neither returned nor buffered.
\<close>

lemma get_match_discards_earlier_record:
  "get_match (MetaDat_init 1 10 ''A'' ''G'' (Some 1) (Some (1/2)) None [])
     (Study_init 1 1
        [\<lparr>row_chr = ''1'', row_pos = 5, row_ref = ''A'', row_alt = ''G'', row_eff = Some 1,
          row_pval = Some (1/2), row_se = None, row_extra = []\<rparr>,
         \<lparr>row_chr = ''1'', row_pos = 10, row_ref = ''A'', row_alt = ''G'', row_eff = Some 1,
          row_pval = Some (1/2), row_se = None, row_extra = []\<rparr>])
   = Inr (Some (MetaDat_init 1 10 ''A'' ''G'' (Some 1) (Some (1/2)) None []), Study_init 1 1 [])
   \<and> MetaDat_init 1 5 ''A'' ''G'' (Some 1) (Some (1/2)) None []
       \<noteq> MetaDat_init 1 10 ''A'' ''G'' (Some 1) (Some (1/2)) None []"
  by (simp add: get_match_def get_next_data_def chrord_def chrord_table_def make_dat_def MetaDat_init_def
      Study_init_def before_def equalize_def flip_def is_symmetric_def truthy_def put_back_def
      future_batch_def in_batch_def del_batch_def del_at_def Let_def)

text \<open>
  Away from the end of the file, nothing else is lost. For every stream whose buffer has
  the shape above (the empty buffer of a new \<open>Study\<close> has it) and every sequence of
  \<open>get_match\<close> calls that returns and leaves lines unread in the file: the records in the
  buffer at the start and those built from the lines read are, counted with
  multiplicity, exactly the records dropped, the records returned as matches (before
  \<open>equalize\<close> normalised them) and the records in the buffer at the end. Every dropped
  record sorts before one of the targets; none is counted twice; the buffer keeps its
  shape.
\<close>

lemma get_matches_conserve:
  assumes "buffer_ok (future s)" and "get_matches dats s = Inr (ms, s')" and "fpoint s' \<noteq> []"
  shows "\<exists>consumed dropped origs. fpoint s = consumed @ fpoint s'
     \<and> (\<forall>d\<in>set dropped. \<exists>dat\<in>set dats. before d dat)
     \<and> matched_from dats ms origs
     \<and> mset (future s) + mset (records_of consumed)
         = mset dropped + mset origs + mset (future s')
     \<and> buffer_ok (future s')"
  using assms
proof (induction dats arbitrary: s ms)
  case Nil
  then have "fpoint s = [] @ fpoint s' \<and> (\<forall>d\<in>set []. \<exists>dat\<in>set []. before d dat)
     \<and> matched_from [] ms [] \<and> mset (future s) + mset (records_of [])
         = mset [] + mset [] + mset (future s') \<and> buffer_ok (future s')" by auto
  then show ?case by blast
next
  case (Cons dat dats)
  from Cons.prems(2) obtain m s1 where g: "get_match dat s = Inr (m, s1)"
    by (cases "get_match dat s") auto
  with Cons.prems(2) obtain ms1 where gs: "get_matches dats s1 = Inr (ms1, s')"
    and ms: "ms = m # ms1"
    by (cases "get_matches dats s1") auto
  have fp1: "fpoint s1 \<noteq> []" using get_matches_fpoint_empty [OF gs] Cons.prems(3) by blast
  from get_match_conserves [OF Cons.prems(1) g fp1] obtain consumed1 dropped1 where
    c1: "fpoint s = consumed1 @ fpoint s1" "\<forall>d\<in>set dropped1. before d dat"
      "case m of
          None \<Rightarrow> mset (future s) + mset (records_of consumed1) = mset dropped1 + mset (future s1)
        | Some v' \<Rightarrow> \<exists>v. equalize v dat = Inr (Some True, v')
            \<and> mset (future s) + mset (records_of consumed1)
                = mset dropped1 + {#v#} + mset (future s1)"
      "buffer_ok (future s1)" by blast
  from Cons.IH [OF c1(4) gs Cons.prems(3)] obtain consumed2 dropped2 origs2 where
    c2: "fpoint s1 = consumed2 @ fpoint s'"
      "\<forall>d\<in>set dropped2. \<exists>dat\<in>set dats. before d dat"
      "matched_from dats ms1 origs2"
      "mset (future s1) + mset (records_of consumed2)
         = mset dropped2 + mset origs2 + mset (future s')"
      "buffer_ok (future s')" by blast
  have "\<exists>o1. matched_from (dat # dats) (m # ms1) (o1 @ origs2)
      \<and> mset (future s) + mset (records_of consumed1) = mset dropped1 + mset o1 + mset (future s1)"
  proof (cases m)
    case None
    with c1(3) c2(3) have "matched_from (dat # dats) (m # ms1) ([] @ origs2)
      \<and> mset (future s) + mset (records_of consumed1) = mset dropped1 + mset [] + mset (future s1)"
      by simp
    then show ?thesis by blast
  next
    case (Some v')
    with c1(3) obtain v where v: "equalize v dat = Inr (Some True, v')"
      "mset (future s) + mset (records_of consumed1) = mset dropped1 + {#v#} + mset (future s1)"
      by auto
    with c2(3) have "matched_from (dat # dats) (m # ms1) ([v] @ origs2)
      \<and> mset (future s) + mset (records_of consumed1) = mset dropped1 + mset [v] + mset (future s1)"
      by (simp add: Some)
    then show ?thesis by blast
  qed
  then obtain o1 where o1: "matched_from (dat # dats) (m # ms1) (o1 @ origs2)"
    "mset (future s) + mset (records_of consumed1) = mset dropped1 + mset o1 + mset (future s1)"
    by blast
  have a: "fpoint s = (consumed1 @ consumed2) @ fpoint s'" using c1(1) c2(1) by simp
  have b: "\<forall>d\<in>set (dropped1 @ dropped2). \<exists>t\<in>set (dat # dats). before d t"
    using c1(2) c2(2) by auto
  have "mset (future s) + mset (records_of (consumed1 @ consumed2))
      = (mset (future s) + mset (records_of consumed1)) + mset (records_of consumed2)"
    by (simp add: records_of_append)
  also have "\<dots> = mset dropped1 + mset o1 + (mset (future s1) + mset (records_of consumed2))"
    unfolding o1(2) by (simp add: ac_simps)
  also have "\<dots> = mset (dropped1 @ dropped2) + mset (o1 @ origs2) + mset (future s')"
    unfolding c2(4) by (simp add: ac_simps)
  finally have m: "mset (future s) + mset (records_of (consumed1 @ consumed2))
      = mset (dropped1 @ dropped2) + mset (o1 @ origs2) + mset (future s')" .
  from a b o1(1) m c2(5) show ?case unfolding ms by blast
qed

lemma get_matches_conserve_example:
  "\<exists>consumed dropped origs.
     fpoint (Study_init 1 1
        [\<lparr>row_chr = ''1'', row_pos = 5, row_ref = ''A'', row_alt = ''G'', row_eff = Some 1,
          row_pval = Some (1/2), row_se = None, row_extra = []\<rparr>,
         \<lparr>row_chr = ''1'', row_pos = 10, row_ref = ''A'', row_alt = ''G'', row_eff = Some 1,
          row_pval = Some (1/2), row_se = None, row_extra = []\<rparr>,
         \<lparr>row_chr = ''1'', row_pos = 20, row_ref = ''A'', row_alt = ''G'', row_eff = Some 1,
          row_pval = Some (1/2), row_se = None, row_extra = []\<rparr>])
       = consumed @ fpoint (Study_init 1 1
        [\<lparr>row_chr = ''1'', row_pos = 20, row_ref = ''A'', row_alt = ''G'', row_eff = Some 1,
          row_pval = Some (1/2), row_se = None, row_extra = []\<rparr>])
     \<and> (\<forall>d\<in>set dropped. \<exists>dat\<in>set [MetaDat_init 1 10 ''A'' ''G'' (Some 1) (Some (1/2)) None []]. before d dat)
     \<and> matched_from [MetaDat_init 1 10 ''A'' ''G'' (Some 1) (Some (1/2)) None []]
          [Some (MetaDat_init 1 10 ''A'' ''G'' (Some 1) (Some (1/2)) None [])] origs
     \<and> mset (future (Study_init 1 1
        [\<lparr>row_chr = ''1'', row_pos = 5, row_ref = ''A'', row_alt = ''G'', row_eff = Some 1,
          row_pval = Some (1/2), row_se = None, row_extra = []\<rparr>,
         \<lparr>row_chr = ''1'', row_pos = 10, row_ref = ''A'', row_alt = ''G'', row_eff = Some 1,
          row_pval = Some (1/2), row_se = None, row_extra = []\<rparr>,
         \<lparr>row_chr = ''1'', row_pos = 20, row_ref = ''A'', row_alt = ''G'', row_eff = Some 1,
          row_pval = Some (1/2), row_se = None, row_extra = []\<rparr>]))
         + mset (records_of consumed)
       = mset dropped + mset origs + mset (future (Study_init 1 1
        [\<lparr>row_chr = ''1'', row_pos = 20, row_ref = ''A'', row_alt = ''G'', row_eff = Some 1,
          row_pval = Some (1/2), row_se = None, row_extra = []\<rparr>]))
     \<and> buffer_ok (future (Study_init 1 1
        [\<lparr>row_chr = ''1'', row_pos = 20, row_ref = ''A'', row_alt = ''G'', row_eff = Some 1,
          row_pval = Some (1/2), row_se = None, row_extra = []\<rparr>]))"
proof -
  let ?s = "Study_init 1 1
        [\<lparr>row_chr = ''1'', row_pos = 5, row_ref = ''A'', row_alt = ''G'', row_eff = Some 1,
          row_pval = Some (1/2), row_se = None, row_extra = []\<rparr>,
         \<lparr>row_chr = ''1'', row_pos = 10, row_ref = ''A'', row_alt = ''G'', row_eff = Some 1,
          row_pval = Some (1/2), row_se = None, row_extra = []\<rparr>,
         \<lparr>row_chr = ''1'', row_pos = 20, row_ref = ''A'', row_alt = ''G'', row_eff = Some 1,
          row_pval = Some (1/2), row_se = None, row_extra = []\<rparr>]"
  let ?s' = "Study_init 1 1
        [\<lparr>row_chr = ''1'', row_pos = 20, row_ref = ''A'', row_alt = ''G'', row_eff = Some 1,
          row_pval = Some (1/2), row_se = None, row_extra = []\<rparr>]"
  let ?t = "MetaDat_init 1 10 ''A'' ''G'' (Some 1) (Some (1/2)) None []"
  have h1: "buffer_ok (future ?s)" by (simp add: buffer_ok_def Study_init_def)
  have h2: "get_matches [?t] ?s = Inr ([Some ?t], ?s')"
    by (simp add: get_match_def get_next_data_def chrord_def chrord_table_def make_dat_def MetaDat_init_def
      Study_init_def before_def equalize_def flip_def is_symmetric_def truthy_def put_back_def
      future_batch_def in_batch_def del_batch_def del_at_def Let_def)
  have h3: "fpoint ?s' \<noteq> []" by (simp add: Study_init_def)
  from get_matches_conserve [OF h1 h2 h3] show ?thesis .
qed

text \<open>
  Claim C1. A stream whose file holds one line, at position 10 with alleles A/G, and a
  target at position 10 with the same alleles: the one record of the stream is the
  record the loop builds from that line, and \<open>equalize\<close> answers \<open>True\<close> for it. The claim
  says the record is returned as the match or stays recoverable. \<open>get_next_data\<close> has
  the record in \<open>vars\<close> when it reads on, meets the end of the file and returns \<open>None\<close>;
  \<open>get_match\<close> returns \<open>None\<close>, the buffer is empty and the file is at its end. The record
  is gone. The same happens to the last position group of every stream read without
  \<open>just_one\<close>.
\<close>

theorem get_match_loses_last_batch:
  "records_of
     [\<lparr>row_chr = ''1'', row_pos = 10, row_ref = ''A'', row_alt = ''G'', row_eff = Some 1,
          row_pval = Some (1/2), row_se = None, row_extra = []\<rparr>]
     = [MetaDat_init 1 10 ''A'' ''G'' (Some 1) (Some (1/2)) None []]
   \<and> equalize (MetaDat_init 1 10 ''A'' ''G'' (Some 1) (Some (1/2)) None [])
        (MetaDat_init 1 10 ''A'' ''G'' (Some 1) (Some (1/2)) None [])
     = Inr (Some True, MetaDat_init 1 10 ''A'' ''G'' (Some 1) (Some (1/2)) None [])
   \<and> get_match (MetaDat_init 1 10 ''A'' ''G'' (Some 1) (Some (1/2)) None [])
     (Study_init 1 1
        [\<lparr>row_chr = ''1'', row_pos = 10, row_ref = ''A'', row_alt = ''G'', row_eff = Some 1,
          row_pval = Some (1/2), row_se = None, row_extra = []\<rparr>])
   = Inr (None, Study_init 1 1 [])"
  by (simp add: get_match_def get_next_data_def chrord_def chrord_table_def make_dat_def MetaDat_init_def
      Study_init_def before_def equalize_def flip_def is_symmetric_def truthy_def put_back_def
      future_batch_def in_batch_def del_batch_def del_at_def Let_def)

end
